theory Spec2Isabelle
  imports Complex_Main "HOL-Library.Multiset" "HOL-Library.AList"
begin

section \<open>Python values\<close>

text \<open>
  The two programs \<^verbatim>\<open>tsp.py\<close> and \<^verbatim>\<open>tsp_hcs.py\<close> share every function but
  \<^verbatim>\<open>hill_climbing\<close> and \<^verbatim>\<open>main\<close>. Python integers are \<^typ>\<open>int\<close>, tours are
  \<^typ>\<open>int list\<close>, and a numpy array of floats is a \<^typ>\<open>real list list\<close>: table entries and
  route lengths are exact reals, so the rounding of IEEE doubles is not part of the model.
  An exception is a value of \<open>error\<close>, returned on the left of a sum.
\<close>

datatype error = IndexError | ValueError | TypeError | OverflowError

text \<open>
  \<^verbatim>\<open>xs[i]\<close> for a Python list and for one axis of a numpy array of length \<open>n\<close>:
  \<open>valid_index n i\<close> holds of the indices that do not raise \<^verbatim>\<open>IndexError\<close>, and
  \<open>position n i\<close> is the place such an index reads, a negative one counting from the end.
\<close>

definition valid_index :: "nat \<Rightarrow> int \<Rightarrow> bool" where
  "valid_index n a \<longleftrightarrow> - int n \<le> a \<and> a < int n"

definition position :: "nat \<Rightarrow> int \<Rightarrow> nat" where
  "position n a = nat (if a < 0 then int n + a else a)"

definition py_index :: "'a list \<Rightarrow> int \<Rightarrow> error + 'a" where
  "py_index xs i =
     (if valid_index (length xs) i then Inr (xs ! position (length xs) i) else Inl IndexError)"

text \<open>\<^verbatim>\<open>distance_matrix[a][b]\<close>: the row first, then the column.\<close>

definition entry :: "'a list list \<Rightarrow> int \<Rightarrow> int \<Rightarrow> error + 'a" where
  "entry dm a b = (case py_index dm a of Inl e \<Rightarrow> Inl e | Inr row \<Rightarrow> py_index row b)"

section \<open>Distances\<close>

text \<open>
  \<^verbatim>\<open>
  def euclidean_distance(n1, n2):
      return np.sqrt((n1[0] - n2[0])**2 + (n1[1] - n2[1])**2)
  \<close>
\<close>

definition euclidean_distance :: "real \<times> real \<Rightarrow> real \<times> real \<Rightarrow> real" where
  "euclidean_distance n1 n2 = sqrt ((fst n1 - fst n2)\<^sup>2 + (snd n1 - snd n2)\<^sup>2)"

text \<open>\<^verbatim>\<open>np.zeros((r, c))\<close>, and the assignment \<^verbatim>\<open>matrix[i][j] = v\<close> for indices in range.\<close>

definition zeros :: "nat \<Rightarrow> nat \<Rightarrow> real list list" where
  "zeros r c = replicate r (replicate c 0)"

definition set_entry :: "'a list list \<Rightarrow> nat \<Rightarrow> nat \<Rightarrow> 'a \<Rightarrow> 'a list list" where
  "set_entry matrix i j v = matrix[i := (matrix ! i)[j := v]]"

text \<open>
  \<^verbatim>\<open>
  def distance_matrix(coords_list):
      matrix = np.zeros((len(coords_list), len(coords_list)))
      for i in range(len(coords_list)):
          for j in range(i+1, len(coords_list)):
              distance = euclidean_distance(coords_list[i], coords_list[j])
              matrix[i][j] = distance
              matrix[j][i] = distance
      return matrix
  \<close>
  Both loops are folds over their ranges; every index they use is below \<open>len(coords_list)\<close>,
  so no access can raise. \<open>distance_matrix_by\<close> is the function with the callee
  \<^verbatim>\<open>euclidean_distance\<close> as a parameter \<open>d\<close>, which lets a theorem tell the entry that was
  computed from the entry that was copied.
\<close>

definition distance_matrix_by ::
  "(real \<times> real \<Rightarrow> real \<times> real \<Rightarrow> real) \<Rightarrow> (real \<times> real) list \<Rightarrow> real list list" where
  "distance_matrix_by d coords_list =
     fold (\<lambda>i matrix.
        fold (\<lambda>j matrix.
           let distance = d (coords_list ! i) (coords_list ! j)
           in set_entry (set_entry matrix i j distance) j i distance)
          [i + 1..<length coords_list] matrix)
       [0..<length coords_list]
       (zeros (length coords_list) (length coords_list))"

definition distance_matrix :: "(real \<times> real) list \<Rightarrow> real list list" where
  "distance_matrix coords_list = distance_matrix_by euclidean_distance coords_list"

text \<open>The index pairs the two loops visit, in the order they visit them.\<close>

definition upper_pairs :: "nat \<Rightarrow> (nat \<times> nat) list" where
  "upper_pairs n = concat (map (\<lambda>i. map (\<lambda>j. (i, j)) [i + 1..<n]) [0..<n])"


section \<open>Route length\<close>

text \<open>
  \<^verbatim>\<open>
  def route_length(current_solution, distance_matrix):
      route_length = 0
      for i in range(len(current_solution) - 1):
          route_length += distance_matrix[current_solution[i] - 1][current_solution[i + 1] - 1]
      route_length += distance_matrix[current_solution[-1] - 1][current_solution[0] - 1]
      return route_length
  \<close>
  \<open>route_loop\<close> is the \<^verbatim>\<open>for\<close> loop over the indices it is given, with the running sum;
  \<open>current_solution[i]\<close> and \<open>current_solution[i + 1]\<close> are in range there. The table
  accesses and the two accesses of the last statement can raise.
\<close>

fun route_loop :: "int list \<Rightarrow> real list list \<Rightarrow> nat list \<Rightarrow> real \<Rightarrow> error + real" where
  "route_loop cs dm [] acc = Inr acc"
| "route_loop cs dm (i # ks) acc =
     (case entry dm (cs ! i - 1) (cs ! (i + 1) - 1) of
        Inl e \<Rightarrow> Inl e
      | Inr d \<Rightarrow> route_loop cs dm ks (acc + d))"

definition route_length :: "int list \<Rightarrow> real list list \<Rightarrow> error + real" where
  "route_length current_solution dm =
     (case route_loop current_solution dm [0..<length current_solution - 1] 0 of
        Inl e \<Rightarrow> Inl e
      | Inr acc \<Rightarrow>
         (case py_index current_solution (- 1) of
            Inl e \<Rightarrow> Inl e
          | Inr l \<Rightarrow>
             (case py_index current_solution 0 of
                Inl e \<Rightarrow> Inl e
              | Inr f \<Rightarrow>
                 (case entry dm (l - 1) (f - 1) of
                    Inl e \<Rightarrow> Inl e
                  | Inr d \<Rightarrow> Inr (acc + d)))))"

text \<open>
  What the theorems say about tables: \<open>square n dm\<close> is an \<open>n\<close> by \<open>n\<close> table,
  \<open>symmetric n dm\<close> one that equals its transpose. \<open>weight dm a b\<close> is the entry
  the cities \<open>a\<close> and \<open>b\<close> read, and \<open>tour_cost\<close> the closed form of the cyclic length.
\<close>

definition square :: "nat \<Rightarrow> 'a list list \<Rightarrow> bool" where
  "square n dm \<longleftrightarrow> length dm = n \<and> list_all (\<lambda>row. length row = n) dm"

definition symmetric :: "nat \<Rightarrow> 'a list list \<Rightarrow> bool" where
  "symmetric n dm \<longleftrightarrow> list_all (\<lambda>i. list_all (\<lambda>j. dm ! i ! j = dm ! j ! i) [0..<n]) [0..<n]"

definition weight :: "'a list list \<Rightarrow> int \<Rightarrow> int \<Rightarrow> 'a" where
  "weight dm a b = dm ! position (length dm) (a - 1) ! position (length dm) (b - 1)"

definition tour_cost :: "real list list \<Rightarrow> int list \<Rightarrow> real" where
  "tour_cost dm cs =
     (\<Sum>i<length cs - 1. weight dm (cs ! i) (cs ! (i + 1))) + weight dm (last cs) (hd cs)"

text \<open>
  A tour of \<open>n\<close> cities is a permutation of the ids 1 to \<open>n\<close>: the lists
  \<^verbatim>\<open>random.shuffle\<close> can make of \<^verbatim>\<open>list(range(1, n + 1))\<close>.
\<close>

definition tour :: "nat \<Rightarrow> int list \<Rightarrow> bool" where
  "tour n cs \<longleftrightarrow> mset cs = mset (map int [1..<n + 1])"

section \<open>Neighbours\<close>

text \<open>
  \<^verbatim>\<open>
  def get_neighbors(current_solution):
      neighbors = []
      for i in range(len(current_solution)):
          for j in range(i+1, len(current_solution)):
              neighbor = current_solution.copy()
              neighbor[i], neighbor[j] = neighbor[j], neighbor[i]
              neighbors.append(neighbor)
      return neighbors
  \<close>
  The tuple assignment reads both elements before it writes either. As a function of the
  tour's value the result is the list of the swapped copies, in the order of the loops.
\<close>

definition swap_positions :: "'a list \<Rightarrow> nat \<Rightarrow> nat \<Rightarrow> 'a list" where
  "swap_positions xs i j = xs[i := xs ! j, j := xs ! i]"

definition get_neighbors :: "int list \<Rightarrow> int list list" where
  "get_neighbors current_solution =
     fold (\<lambda>i neighbors.
        fold (\<lambda>j neighbors. neighbors @ [swap_positions current_solution i j])
          [i + 1..<length current_solution] neighbors)
       [0..<length current_solution] []"

text \<open>
  The same function on a store of list objects, where a reference is the position of its
  object: \<^verbatim>\<open>copy()\<close> allocates a new object, the swap writes into that object, and the
  result is the list of the references appended. This is the version that can say whether
  the argument's object was written to.
\<close>

type_synonym store = "int list list"

definition copy_object :: "store \<Rightarrow> nat \<Rightarrow> store \<times> nat" where
  "copy_object h r = (h @ [h ! r], length h)"

definition swap_in_place :: "store \<Rightarrow> nat \<Rightarrow> nat \<Rightarrow> nat \<Rightarrow> store" where
  "swap_in_place h r i j = h[r := swap_positions (h ! r) i j]"

text \<open>
  \<open>neighbor_step\<close> is the body of the inner loop and \<open>neighbor_row\<close> one round of the
  outer loop, on the store and the list \<^verbatim>\<open>neighbors\<close>.
\<close>

definition neighbor_step :: "nat \<Rightarrow> nat \<Rightarrow> nat \<Rightarrow> store \<times> nat list \<Rightarrow> store \<times> nat list" where
  "neighbor_step current_solution i j = (\<lambda>(h, neighbors).
      let (h, neighbor) = copy_object h current_solution;
          h = swap_in_place h neighbor i j
      in (h, neighbors @ [neighbor]))"

definition neighbor_row :: "nat \<Rightarrow> nat \<Rightarrow> store \<times> nat list \<Rightarrow> store \<times> nat list" where
  "neighbor_row current_solution i = (\<lambda>(h, neighbors).
      fold (neighbor_step current_solution i) [i + 1..<length (h ! current_solution)]
        (h, neighbors))"

definition get_neighbors_store :: "store \<Rightarrow> nat \<Rightarrow> store \<times> nat list" where
  "get_neighbors_store h current_solution =
     fold (neighbor_row current_solution) [0..<length (h ! current_solution)] (h, [])"

text \<open>
  \<^verbatim>\<open>
  def get_best_neighbor(neighbors, distance_matrix):
      best_neighbor = neighbors[0]
      best_route_length = route_length(best_neighbor, distance_matrix)
      for neighbor in neighbors:
          current_route_length = route_length(neighbor, distance_matrix)
          if current_route_length < best_route_length:
              best_route_length = current_route_length
              best_neighbor = neighbor
      return best_neighbor, best_route_length
  \<close>
\<close>

fun best_loop ::
  "real list list \<Rightarrow> int list list \<Rightarrow> int list \<Rightarrow> real \<Rightarrow> error + int list \<times> real" where
  "best_loop dm [] best_neighbor best_route_length = Inr (best_neighbor, best_route_length)"
| "best_loop dm (neighbor # rest) best_neighbor best_route_length =
     (case route_length neighbor dm of
        Inl e \<Rightarrow> Inl e
      | Inr current_route_length \<Rightarrow>
         if current_route_length < best_route_length
         then best_loop dm rest neighbor current_route_length
         else best_loop dm rest best_neighbor best_route_length)"

definition get_best_neighbor :: "int list list \<Rightarrow> real list list \<Rightarrow> error + int list \<times> real" where
  "get_best_neighbor neighbors dm =
     (case py_index neighbors 0 of
        Inl e \<Rightarrow> Inl e
      | Inr best_neighbor \<Rightarrow>
         (case route_length best_neighbor dm of
            Inl e \<Rightarrow> Inl e
          | Inr best_route_length \<Rightarrow> best_loop dm neighbors best_neighbor best_route_length))"

section \<open>Random tours\<close>

text \<open>
  \<^verbatim>\<open>
  def random_solution(nodes_list):
      cities = list(range(1, len(nodes_list) + 1))
      random.shuffle(cities)
      return cities
  \<close>
  \<^verbatim>\<open>random.shuffle\<close> belongs to Python's library. It is a parameter \<open>shuffle\<close> here, a
  function from the generator's state and a list to the shuffled list and the next state;
  \<open>shuffles\<close> is what the library promises of it, a permutation of the argument.
\<close>

type_synonym 'g shuffle = "'g \<Rightarrow> int list \<Rightarrow> int list \<times> 'g"

definition random_solution :: "'g shuffle \<Rightarrow> 'g \<Rightarrow> 'c list \<Rightarrow> int list \<times> 'g" where
  "random_solution shuffle g nodes_list = shuffle g (map int [1..<length nodes_list + 1])"

definition shuffles :: "'g shuffle \<Rightarrow> bool" where
  "shuffles shuffle \<longleftrightarrow> (\<forall>g xs. mset (fst (shuffle g xs)) = mset xs)"

text \<open>
  One such function, for the concrete runs below: the loop of CPython's
  \<^verbatim>\<open>random.shuffle\<close>,
  \<^verbatim>\<open>
      for i in reversed(range(1, len(x))):
          j = randbelow(i + 1)
          x[i], x[j] = x[j], x[i]
  \<close>
  drawing from a list of numbers that stands for the generator (an exhausted list draws 0).
\<close>

definition randbelow :: "nat \<Rightarrow> nat list \<Rightarrow> nat \<times> nat list" where
  "randbelow n g = (case g of [] \<Rightarrow> (0, []) | d # ds \<Rightarrow> (d mod n, ds))"

definition fisher_yates :: "nat list shuffle" where
  "fisher_yates g x =
     fold (\<lambda>i (x, g). let (j, g) = randbelow (i + 1) g in (swap_positions x i j, g))
       (rev [1..<length x]) (x, g)"

section \<open>Hill climbing\<close>

text \<open>
  \<^verbatim>\<open>float('inf')\<close> is the one float of the programs that is not a real number: the best
  length starts there. The order is that of the floats.
\<close>

datatype pyfloat = Finite real | PosInf

instantiation pyfloat :: linorder
begin

fun less_eq_pyfloat :: "pyfloat \<Rightarrow> pyfloat \<Rightarrow> bool" where
  "less_eq_pyfloat (Finite a) (Finite b) = (a \<le> b)"
| "less_eq_pyfloat PosInf (Finite b) = False"
| "less_eq_pyfloat x PosInf = True"

definition less_pyfloat :: "pyfloat \<Rightarrow> pyfloat \<Rightarrow> bool" where
  "less_pyfloat x y \<longleftrightarrow> x \<le> y \<and> \<not> y \<le> x"

instance
proof
  fix x y z :: pyfloat
  show "(x < y) = (x \<le> y \<and> \<not> y \<le> x)" by (simp add: less_pyfloat_def)
  show "x \<le> x" by (cases x) simp_all
  show "x \<le> y \<Longrightarrow> y \<le> z \<Longrightarrow> x \<le> z" by (cases x; cases y; cases z) simp_all
  show "x \<le> y \<Longrightarrow> y \<le> x \<Longrightarrow> x = y" by (cases x; cases y) simp_all
  show "x \<le> y \<or> y \<le> x" by (cases x; cases y) auto
qed

end

text \<open>
  The variables of \<^verbatim>\<open>hill_climbing\<close>, and the generator. \<^verbatim>\<open>tsp.py\<close> carries the
  first five from one iteration of its outer loop to the next; \<^verbatim>\<open>tsp_hcs.py\<close> carries
  the current tour and its length as well.
\<close>

record 'g progress =
  best_solution :: "int list option"
  best_route_length :: pyfloat
  best_route_lengths :: "pyfloat list"
  no_improvement_count :: int
  rng :: 'g

record 'g search = "'g progress" +
  current_solution :: "int list"
  current_route_length :: real

subsection \<open>The inner-loop engine of \<^verbatim>\<open>tsp_hcs.py\<close>\<close>

text \<open>
  \<^verbatim>\<open>
  def hill_climbing(city_list, distance_matrix, iterations, restart_threshold=10):
      best_solution = None
      best_route_length = float('inf')
      best_route_lengths = []
      no_improvement_count = 0
      current_solution = random_solution(city_list)
      current_route_length = route_length(current_solution, distance_matrix)
      for _ in range(iterations):
          neighbors = get_neighbors(current_solution)
          best_neighbor, best_neighbor_length = get_best_neighbor(neighbors, distance_matrix)
          if best_neighbor_length < current_route_length:
              current_route_length = best_neighbor_length
              current_solution = best_neighbor
              no_improvement_count = 0
          else:
              no_improvement_count += 1
          if current_route_length < best_route_length:
              best_route_length = current_route_length
              best_solution = current_solution
          if no_improvement_count >= restart_threshold:
              current_solution = random_solution(city_list)
              current_route_length = route_length(current_solution, distance_matrix)
              no_improvement_count = 0
          best_route_lengths.append(best_route_length)
      return best_solution, best_route_length, best_route_lengths
  \<close>
  The three \<^verbatim>\<open>if\<close> statements of the loop body are \<open>adopt_or_count\<close>, \<open>record_best\<close>
  and \<open>restart_if_stagnant\<close>; \<open>hcs_iteration\<close> is the body.
\<close>

definition adopt_or_count :: "int list \<Rightarrow> real \<Rightarrow> 'g search \<Rightarrow> 'g search" where
  "adopt_or_count best_neighbor best_neighbor_length s =
     (if best_neighbor_length < current_route_length s
      then s\<lparr>current_route_length := best_neighbor_length,
             current_solution := best_neighbor,
             no_improvement_count := 0\<rparr>
      else s\<lparr>no_improvement_count := no_improvement_count s + 1\<rparr>)"

definition record_best :: "'g search \<Rightarrow> 'g search" where
  "record_best s =
     (if Finite (current_route_length s) < best_route_length s
      then s\<lparr>best_route_length := Finite (current_route_length s),
             best_solution := Some (current_solution s)\<rparr>
      else s)"

definition restart_if_stagnant ::
  "'g shuffle \<Rightarrow> 'c list \<Rightarrow> real list list \<Rightarrow> int \<Rightarrow> 'g search \<Rightarrow> error + 'g search" where
  "restart_if_stagnant shuffle city_list dm restart_threshold s =
     (if no_improvement_count s \<ge> restart_threshold
      then
        (let (cs, g) = random_solution shuffle (rng s) city_list
         in case route_length cs dm of
              Inl e \<Rightarrow> Inl e
            | Inr l \<Rightarrow> Inr (s\<lparr>current_solution := cs, current_route_length := l,
                              no_improvement_count := 0, rng := g\<rparr>))
      else Inr s)"

definition hcs_iteration ::
  "'g shuffle \<Rightarrow> 'c list \<Rightarrow> real list list \<Rightarrow> int \<Rightarrow> 'g search \<Rightarrow> error + 'g search" where
  "hcs_iteration shuffle city_list dm restart_threshold s =
     (case get_best_neighbor (get_neighbors (current_solution s)) dm of
        Inl e \<Rightarrow> Inl e
      | Inr (best_neighbor, best_neighbor_length) \<Rightarrow>
         (case restart_if_stagnant shuffle city_list dm restart_threshold
                 (record_best (adopt_or_count best_neighbor best_neighbor_length s)) of
            Inl e \<Rightarrow> Inl e
          | Inr s' \<Rightarrow>
              Inr (s'\<lparr>best_route_lengths := best_route_lengths s' @ [best_route_length s']\<rparr>)))"

fun hcs_loop ::
  "'g shuffle \<Rightarrow> 'c list \<Rightarrow> real list list \<Rightarrow> int \<Rightarrow> nat \<Rightarrow> 'g search \<Rightarrow> error + 'g search" where
  "hcs_loop shuffle city_list dm restart_threshold 0 s = Inr s"
| "hcs_loop shuffle city_list dm restart_threshold (Suc n) s =
     (case hcs_iteration shuffle city_list dm restart_threshold s of
        Inl e \<Rightarrow> Inl e
      | Inr s' \<Rightarrow> hcs_loop shuffle city_list dm restart_threshold n s')"

text \<open>
  The result is the returned triple and the generator's last state. \<^verbatim>\<open>range(iterations)\<close>
  is empty for a negative budget.
\<close>

type_synonym 'g outcome = "(int list option \<times> pyfloat \<times> pyfloat list) \<times> 'g"

definition hill_climbing_hcs ::
  "'g shuffle \<Rightarrow> 'g \<Rightarrow> 'c list \<Rightarrow> real list list \<Rightarrow> int \<Rightarrow> int \<Rightarrow> error + 'g outcome" where
  "hill_climbing_hcs shuffle g city_list dm iterations restart_threshold =
     (let (cs, g) = random_solution shuffle g city_list
      in case route_length cs dm of
           Inl e \<Rightarrow> Inl e
         | Inr l \<Rightarrow>
            (case hcs_loop shuffle city_list dm restart_threshold (nat iterations)
                    \<lparr>best_solution = None, best_route_length = PosInf, best_route_lengths = [],
                     no_improvement_count = 0, rng = g,
                     current_solution = cs, current_route_length = l\<rparr> of
               Inl e \<Rightarrow> Inl e
             | Inr s \<Rightarrow>
                 Inr ((best_solution s, best_route_length s, best_route_lengths s), rng s)))"

subsection \<open>The outer-loop engine of \<^verbatim>\<open>tsp.py\<close>\<close>

text \<open>
  \<^verbatim>\<open>
  def hill_climbing(city_list, distance_matrix, iterations=1000, restart_threshold=10):
      best_solution = None
      best_route_lengths = []
      best_route_length = float('inf')
      no_improvement_count = 0
      for _ in range(iterations):
          if no_improvement_count >= restart_threshold:
              current_solution = random_solution(city_list)
              current_route_length = route_length(current_solution, distance_matrix)
              no_improvement_count = 0
          else:
              current_solution = random_solution(city_list)
              current_route_length = route_length(current_solution, distance_matrix)
          neighbors = get_neighbors(current_solution)
          best_neighbor, best_neighbor_length = get_best_neighbor(neighbors, distance_matrix)
          flag = True
          while flag:
              if best_neighbor_length < current_route_length:
                  current_route_length = best_neighbor_length
                  current_solution = best_neighbor
                  neighbors = get_neighbors(current_solution)
                  best_neighbor, best_neighbor_length = get_best_neighbor(neighbors, distance_matrix)
                  no_improvement_count = 0
              else:
                  flag = False
                  no_improvement_count += 1
          if current_route_length < best_route_length:
              best_route_length = current_route_length
              best_solution = current_solution
          best_route_lengths.append(best_route_length)
      return best_solution, best_route_length, best_route_lengths
  \<close>
  \<open>climb\<close> is the \<^verbatim>\<open>while\<close> loop on the five variables it reads and writes
  (\<open>current\<close>, \<open>current_length\<close>, \<open>neighbor\<close>, \<open>neighbor_length\<close> and \<open>stagnation\<close> for
  \<^verbatim>\<open>current_solution\<close>, \<^verbatim>\<open>current_route_length\<close>, \<^verbatim>\<open>best_neighbor\<close>,
  \<^verbatim>\<open>best_neighbor_length\<close> and \<^verbatim>\<open>no_improvement_count\<close>); it returns the three that are
  read after it. Nothing in the loop bounds the number of its rounds, so it is a partial
  function: \<open>None\<close> is a loop that never ends.
\<close>

partial_function (option) climb ::
  "real list list \<Rightarrow> int list \<Rightarrow> real \<Rightarrow> int list \<Rightarrow> real \<Rightarrow> int
     \<Rightarrow> (error + int list \<times> real \<times> int) option" where
  "climb dm current current_length neighbor neighbor_length stagnation =
     (if neighbor_length < current_length
      then
        (case get_best_neighbor (get_neighbors neighbor) dm of
           Inl e \<Rightarrow> Some (Inl e)
         | Inr (neighbor', neighbor_length') \<Rightarrow>
             climb dm neighbor neighbor_length neighbor' neighbor_length' 0)
      else Some (Inr (current, current_length, stagnation + 1)))"

declare climb.simps [code]

text \<open>The first \<^verbatim>\<open>if\<close> of the outer loop's body, with both of its branches.\<close>

definition fresh_start ::
  "'g shuffle \<Rightarrow> 'c list \<Rightarrow> real list list \<Rightarrow> int \<Rightarrow> 'g progress
     \<Rightarrow> error + int list \<times> real \<times> 'g progress" where
  "fresh_start shuffle city_list dm restart_threshold s =
     (if no_improvement_count s \<ge> restart_threshold
      then
        (let (cs, g) = random_solution shuffle (rng s) city_list
         in case route_length cs dm of
              Inl e \<Rightarrow> Inl e
            | Inr l \<Rightarrow> Inr (cs, l, s\<lparr>no_improvement_count := 0, rng := g\<rparr>))
      else
        (let (cs, g) = random_solution shuffle (rng s) city_list
         in case route_length cs dm of
              Inl e \<Rightarrow> Inl e
            | Inr l \<Rightarrow> Inr (cs, l, s\<lparr>rng := g\<rparr>)))"

definition keep_best :: "int list \<Rightarrow> real \<Rightarrow> 'g progress \<Rightarrow> 'g progress" where
  "keep_best current current_length s =
     (let s = (if Finite current_length < best_route_length s
               then s\<lparr>best_route_length := Finite current_length,
                      best_solution := Some current\<rparr>
               else s)
      in s\<lparr>best_route_lengths := best_route_lengths s @ [best_route_length s]\<rparr>)"

definition tsp_iteration ::
  "'g shuffle \<Rightarrow> 'c list \<Rightarrow> real list list \<Rightarrow> int \<Rightarrow> 'g progress
     \<Rightarrow> (error + 'g progress) option" where
  "tsp_iteration shuffle city_list dm restart_threshold s =
     (case fresh_start shuffle city_list dm restart_threshold s of
        Inl e \<Rightarrow> Some (Inl e)
      | Inr (cs, l, s) \<Rightarrow>
         (case get_best_neighbor (get_neighbors cs) dm of
            Inl e \<Rightarrow> Some (Inl e)
          | Inr (best_neighbor, best_neighbor_length) \<Rightarrow>
             (case climb dm cs l best_neighbor best_neighbor_length (no_improvement_count s) of
                None \<Rightarrow> None
              | Some (Inl e) \<Rightarrow> Some (Inl e)
              | Some (Inr (cs, l, stagnation)) \<Rightarrow>
                  Some (Inr (keep_best cs l (s\<lparr>no_improvement_count := stagnation\<rparr>))))))"

fun tsp_loop ::
  "'g shuffle \<Rightarrow> 'c list \<Rightarrow> real list list \<Rightarrow> int \<Rightarrow> nat \<Rightarrow> 'g progress
     \<Rightarrow> (error + 'g progress) option" where
  "tsp_loop shuffle city_list dm restart_threshold 0 s = Some (Inr s)"
| "tsp_loop shuffle city_list dm restart_threshold (Suc n) s =
     (case tsp_iteration shuffle city_list dm restart_threshold s of
        None \<Rightarrow> None
      | Some (Inl e) \<Rightarrow> Some (Inl e)
      | Some (Inr s') \<Rightarrow> tsp_loop shuffle city_list dm restart_threshold n s')"

definition hill_climbing ::
  "'g shuffle \<Rightarrow> 'g \<Rightarrow> 'c list \<Rightarrow> real list list \<Rightarrow> int \<Rightarrow> int
     \<Rightarrow> (error + 'g outcome) option" where
  "hill_climbing shuffle g city_list dm iterations restart_threshold =
     (case tsp_loop shuffle city_list dm restart_threshold (nat iterations)
             \<lparr>best_solution = None, best_route_length = PosInf, best_route_lengths = [],
              no_improvement_count = 0, rng = g\<rparr> of
        None \<Rightarrow> None
      | Some (Inl e) \<Rightarrow> Some (Inl e)
      | Some (Inr s) \<Rightarrow>
          Some (Inr ((best_solution s, best_route_length s, best_route_lengths s), rng s)))"

subsection \<open>Invariants of the two engines\<close>

text \<open>
  \<open>search_ok\<close>: the current tour is a tour and the current length is its length.
  \<open>trajectory_ok\<close>: the trajectory never increases, it ends with the best length, and
  the best length is below all of it.
\<close>

definition search_ok :: "nat \<Rightarrow> real list list \<Rightarrow> 'g search \<Rightarrow> bool" where
  "search_ok n dm s \<longleftrightarrow>
     tour n (current_solution s) \<and> current_route_length s = tour_cost dm (current_solution s)"

definition trajectory_ok :: "('g, 'z) progress_scheme \<Rightarrow> bool" where
  "trajectory_ok s \<longleftrightarrow>
     sorted_wrt (\<lambda>a b. b \<le> a) (best_route_lengths s)
     \<and> list_all (\<lambda>x. best_route_length s \<le> x) (best_route_lengths s)
     \<and> (best_route_lengths s = [] \<or> last (best_route_lengths s) = best_route_length s)"

text \<open>
  \<open>forget_count\<close> is a state of the outer loop with its stagnation counter blanked: two
  states with the same image differ in the counter at most.
\<close>

definition forget_count :: "'g progress \<Rightarrow> 'g progress" where
  "forget_count s = s\<lparr>no_improvement_count := 0\<rparr>"

section \<open>Reading the instance\<close>

text \<open>
  \<^verbatim>\<open>
  def read_tsp(x):
      city_list = {}
      with open(x, 'r') as file:
          lines = file.readlines()
          flag = False
          for line in lines:
              if line.startswith("NODE_COORD_SECTION"):
                  flag = True
                  continue
              elif line.startswith("EOF"):
                  break
              if flag:
                  temp = line.strip().split()
                  city_id = int(temp[0])
                  x = float(temp[1])
                  y = float(temp[2])
                  city_list[city_id] = (x, y)
      return city_list
  \<close>
  The model starts from the list \<^verbatim>\<open>lines\<close>. A dictionary is an association list with
  \<^const>\<open>AList.update\<close>: like Python's assignment it replaces the value of a key that is
  present, where it stands, and appends a new key. The builtins \<^verbatim>\<open>int\<close> and
  \<^verbatim>\<open>float\<close> are the parameters \<open>py_int\<close> and \<open>py_float\<close>, \<open>None\<close> where the
  builtin raises \<^verbatim>\<open>ValueError\<close>. Whitespace is what \<^verbatim>\<open>str.isspace\<close> accepts below 128.
\<close>

definition startswith :: "string \<Rightarrow> string \<Rightarrow> bool" where
  "startswith line p = (take (length p) line = p)"

definition is_space :: "char \<Rightarrow> bool" where
  "is_space c = (of_char c \<in> {9, 10, 11, 12, 13, 28, 29, 30, 31, 32 :: nat})"

definition py_strip :: "string \<Rightarrow> string" where
  "py_strip s = rev (dropWhile is_space (rev (dropWhile is_space s)))"

fun split_loop :: "string \<Rightarrow> string \<Rightarrow> string list" where
  "split_loop [] w = (if w = [] then [] else [w])"
| "split_loop (c # cs) w =
     (if is_space c then (if w = [] then split_loop cs [] else w # split_loop cs [])
      else split_loop cs (w @ [c]))"

definition py_split :: "string \<Rightarrow> string list" where
  "py_split s = split_loop s []"

type_synonym cities = "(int \<times> real \<times> real) list"

text \<open>
  \<open>parse_line\<close> is the block under \<^verbatim>\<open>if flag:\<close> up to the values it stores: the id and
  the pair of coordinates, or the first exception of its four statements.
\<close>

definition parse_line ::
  "(string \<Rightarrow> int option) \<Rightarrow> (string \<Rightarrow> real option) \<Rightarrow> string
     \<Rightarrow> error + int \<times> real \<times> real" where
  "parse_line py_int py_float line =
     (let temp = py_split (py_strip line)
      in case py_index temp 0 of
           Inl e \<Rightarrow> Inl e
         | Inr t0 \<Rightarrow>
            (case py_int t0 of
               None \<Rightarrow> Inl ValueError
             | Some city_id \<Rightarrow>
                (case py_index temp 1 of
                   Inl e \<Rightarrow> Inl e
                 | Inr t1 \<Rightarrow>
                    (case py_float t1 of
                       None \<Rightarrow> Inl ValueError
                     | Some x \<Rightarrow>
                        (case py_index temp 2 of
                           Inl e \<Rightarrow> Inl e
                         | Inr t2 \<Rightarrow>
                            (case py_float t2 of
                               None \<Rightarrow> Inl ValueError
                             | Some y \<Rightarrow> Inr (city_id, (x, y))))))))"

fun read_lines ::
  "(string \<Rightarrow> int option) \<Rightarrow> (string \<Rightarrow> real option) \<Rightarrow> string list \<Rightarrow> bool \<Rightarrow> cities
     \<Rightarrow> error + cities" where
  "read_lines py_int py_float [] flag city_list = Inr city_list"
| "read_lines py_int py_float (line # lines) flag city_list =
     (if startswith line ''NODE_COORD_SECTION''
      then read_lines py_int py_float lines True city_list
      else if startswith line ''EOF'' then Inr city_list
      else if flag then
        (case parse_line py_int py_float line of
           Inl e \<Rightarrow> Inl e
         | Inr (city_id, xy) \<Rightarrow>
             read_lines py_int py_float lines flag (AList.update city_id xy city_list))
      else read_lines py_int py_float lines flag city_list)"

definition read_tsp ::
  "(string \<Rightarrow> int option) \<Rightarrow> (string \<Rightarrow> real option) \<Rightarrow> string list \<Rightarrow> error + cities" where
  "read_tsp py_int py_float lines = read_lines py_int py_float lines False []"

text \<open>
  Parsers for the concrete files below: they read what \<^verbatim>\<open>int\<close> and \<^verbatim>\<open>float\<close> read
  of a plain decimal numeral, a sign and digits, for \<open>decimal_float\<close> with an optional
  point among the digits. (The builtins accept more: exponents, underscores,
  \<^verbatim>\<open>inf\<close>. No theorem below depends on these two but the concrete runs.)
\<close>

definition digit_value :: "char \<Rightarrow> nat option" where
  "digit_value c =
     (let k = of_char c :: nat in if 48 \<le> k \<and> k \<le> 57 then Some (k - 48) else None)"

fun digits_value :: "string \<Rightarrow> nat \<Rightarrow> nat option" where
  "digits_value [] acc = Some acc"
| "digits_value (c # cs) acc =
     (case digit_value c of None \<Rightarrow> None | Some d \<Rightarrow> digits_value cs (10 * acc + d))"

definition unsigned_int :: "string \<Rightarrow> int option" where
  "unsigned_int s = (if s = [] then None else map_option int (digits_value s 0))"

definition decimal_int :: "string \<Rightarrow> int option" where
  "decimal_int s =
     (case s of
        [] \<Rightarrow> None
      | c # r \<Rightarrow>
          if c = CHR ''-'' then map_option uminus (unsigned_int r)
          else if c = CHR ''+'' then unsigned_int r
          else unsigned_int s)"

definition unsigned_float :: "string \<Rightarrow> real option" where
  "unsigned_float s =
     (let whole = takeWhile (\<lambda>c. c \<noteq> CHR ''.'') s;
          frac = drop 1 (dropWhile (\<lambda>c. c \<noteq> CHR ''.'') s)
      in if whole = [] \<and> frac = [] then None
         else (case digits_value whole 0 of
                 None \<Rightarrow> None
               | Some a \<Rightarrow>
                  (case digits_value frac 0 of
                     None \<Rightarrow> None
                   | Some b \<Rightarrow> Some (real a + real b / 10 ^ length frac))))"

definition decimal_float :: "string \<Rightarrow> real option" where
  "decimal_float s =
     (case s of
        [] \<Rightarrow> None
      | c # r \<Rightarrow>
          if c = CHR ''-'' then map_option uminus (unsigned_float r)
          else if c = CHR ''+'' then unsigned_float r
          else unsigned_float s)"

section \<open>The program\<close>

text \<open>
  \<^verbatim>\<open>
  def main():
      ...
      city_list = read_tsp(tsp_file)
      coords_list = [city_list[city] for city in sorted(city_list)]
      dist_matrix  = distance_matrix(coords_list)
      best_solution, best_route_length, best_route_lengths = hill_climbing(city_list, dist_matrix)
      print(f"Best route length: {best_route_length}")
      with open("solution.csv", mode='w', newline='') as file:
          writer = csv.writer(file)
          for city in best_solution:
              writer.writerow([city])
      ...
  \<close>
  \<^verbatim>\<open>main\<close> of \<^verbatim>\<open>tsp.py\<close>, from the lines of the file it is given to what it prints and
  writes: the best length and the rows of \<^verbatim>\<open>solution.csv\<close>. The lookups
  \<^verbatim>\<open>city_list[city]\<close> are of keys of the dictionary. Iterating over \<^verbatim>\<open>None\<close> raises
  \<^verbatim>\<open>TypeError\<close>. The plot that follows is left out.
\<close>

definition main ::
  "(string \<Rightarrow> int option) \<Rightarrow> (string \<Rightarrow> real option) \<Rightarrow> 'g shuffle \<Rightarrow> 'g \<Rightarrow> string list
     \<Rightarrow> (error + pyfloat \<times> int list) option" where
  "main py_int py_float shuffle g lines =
     (case read_tsp py_int py_float lines of
        Inl e \<Rightarrow> Some (Inl e)
      | Inr city_list \<Rightarrow>
         (let coords_list = map (\<lambda>city. the (map_of city_list city)) (sort (map fst city_list));
              dist_matrix = distance_matrix coords_list
          in case hill_climbing shuffle g city_list dist_matrix 1000 10 of
               None \<Rightarrow> None
             | Some (Inl e) \<Rightarrow> Some (Inl e)
             | Some (Inr ((best, best_length, lengths), g')) \<Rightarrow>
                (case best of
                   None \<Rightarrow> Some (Inl TypeError)
                 | Some route \<Rightarrow> Some (Inr (best_length, route)))))"

section \<open>Lemmas on indexing and route length\<close>

lemma py_index_valid:
  "py_index xs a = (if valid_index (length xs) a then Inr (xs ! position (length xs) a) else Inl IndexError)"
  by (simp add: py_index_def)

lemma square_row: "square n dm \<Longrightarrow> i < n \<Longrightarrow> length (dm ! i) = n"
  by (simp add: square_def list_all_length)

lemma position_less: "valid_index n a \<Longrightarrow> position n a < n"
  by (auto simp: valid_index_def position_def)

lemma entry_square:
  assumes "square n dm"
  shows "entry dm (a - 1) (b - 1) =
     (if valid_index n (a - 1) \<and> valid_index n (b - 1) then Inr (weight dm a b) else Inl IndexError)"
proof -
  have len: "length dm = n" using assms by (simp add: square_def)
  show ?thesis
  proof (cases "valid_index n (a - 1)")
    case True
    then have "length (dm ! position n (a - 1)) = n"
      using assms position_less square_row by blast
    with True len show ?thesis
      by (simp add: entry_def py_index_valid weight_def)
  next
    case False
    with len show ?thesis by (simp add: entry_def py_index_valid)
  qed
qed

lemma route_loop_append:
  "route_loop cs dm (ks @ [k]) acc =
     (case route_loop cs dm ks acc of
        Inl e \<Rightarrow> Inl e
      | Inr a \<Rightarrow> (case entry dm (cs ! k - 1) (cs ! (k + 1) - 1) of
                    Inl e \<Rightarrow> Inl e | Inr d \<Rightarrow> Inr (a + d)))"
  by (induction ks arbitrary: acc) (auto split: sum.splits)

lemma route_loop_upt:
  assumes "square n dm"
  shows "route_loop cs dm [0..<m] acc =
     (if \<forall>i<m. valid_index n (cs ! i - 1) \<and> valid_index n (cs ! (i + 1) - 1)
      then Inr (acc + (\<Sum>i<m. weight dm (cs ! i) (cs ! (i + 1))))
      else Inl IndexError)"
proof (induction m)
  case 0
  show ?case by simp
next
  case (Suc m)
  show ?case
    by (simp add: route_loop_append Suc entry_square [OF assms] less_Suc_eq all_conj_distrib)
qed

lemma all_edges_valid:
  assumes "cs \<noteq> []"
  shows "((\<forall>i<length cs - 1. P (cs ! i) \<and> P (cs ! (i + 1))) \<and> P (last cs) \<and> P (hd cs))
     \<longleftrightarrow> (\<forall>c\<in>set cs. P c)"
proof
  assume "\<forall>c\<in>set cs. P c"
  with assms show "(\<forall>i<length cs - 1. P (cs ! i) \<and> P (cs ! (i + 1))) \<and> P (last cs) \<and> P (hd cs)"
    by (auto simp: last_in_set)
next
  assume h: "(\<forall>i<length cs - 1. P (cs ! i) \<and> P (cs ! (i + 1))) \<and> P (last cs) \<and> P (hd cs)"
  show "\<forall>c\<in>set cs. P c"
  proof
    fix c assume "c \<in> set cs"
    then obtain i where i: "i < length cs" "cs ! i = c" by (auto simp: in_set_conv_nth)
    show "P c"
    proof (cases "i < length cs - 1")
      case True
      with h i show ?thesis by auto
    next
      case False
      with i assms have "c = last cs" by (auto simp: last_conv_nth intro: arg_cong)
      with h show ?thesis by simp
    qed
  qed
qed

lemma route_length_square:
  assumes "square n dm"
  shows "route_length cs dm =
     (if cs \<noteq> [] \<and> (\<forall>c\<in>set cs. valid_index n (c - 1)) then Inr (tour_cost dm cs)
      else Inl IndexError)"
proof (cases "cs = []")
  case True
  then show ?thesis by (simp add: route_length_def py_index_def valid_index_def)
next
  case False
  have l: "py_index cs (- 1) = Inr (last cs)"
  proof -
    have "0 < length cs" using False by simp
    then have "nat (int (length cs) + - 1) = length cs - 1" by linarith
    with False show ?thesis
      by (simp add: py_index_def valid_index_def position_def last_conv_nth Suc_le_eq)
  qed
  have f: "py_index cs 0 = Inr (hd cs)"
    using False by (simp add: py_index_def valid_index_def position_def hd_conv_nth)
  have "(\<forall>c\<in>set cs. valid_index n (c - 1)) \<longleftrightarrow>
      ((\<forall>i<length cs - 1. valid_index n (cs ! i - 1) \<and> valid_index n (cs ! (i + 1) - 1))
        \<and> valid_index n (last cs - 1) \<and> valid_index n (hd cs - 1))"
    using all_edges_valid [OF False, of "\<lambda>c. valid_index n (c - 1)"] by simp
  then show ?thesis
    using False
    by (simp add: route_length_def route_loop_upt [OF assms] l f entry_square [OF assms]
        tour_cost_def)
qed





section \<open>Lemmas on the distance table\<close>

lemma fold_nested_pairs:
  "fold (\<lambda>i. fold (f i) (g i)) xs = fold (\<lambda>(i, j). f i j) (concat (map (\<lambda>i. map (Pair i) (g i)) xs))"
  by (induction xs) (auto simp: fold_map comp_def)

lemma set_upper_pairs: "set (upper_pairs n) = {(i, j). i < j \<and> j < n}"
  by (force simp: upper_pairs_def)

lemma length_upper_pairs: "length (upper_pairs n) = n * (n - 1) div 2"
proof -
  have "length (upper_pairs n) = (\<Sum>i\<leftarrow>[0..<n]. n - Suc i)"
    by (simp add: upper_pairs_def length_concat comp_def)
  also have "\<dots> = (\<Sum>i<n. n - Suc i)"
    by (simp add: sum_list_sum_nth atLeast0LessThan)
  also have "\<dots> = (\<Sum>i<n. i)" by (rule sum.nat_diff_reindex)
  also have "\<dots> = n * (n - 1) div 2"
  proof -
    have "2 * (\<Sum>i<n. i) = n * (n - 1)"
      by (induction n) (auto simp: algebra_simps)
    then show ?thesis by simp
  qed
  finally show ?thesis .
qed

lemma distinct_upper_pairs: "distinct (upper_pairs n)"
  unfolding upper_pairs_def
  by (rule distinct_concat)
     (auto simp: distinct_map inj_on_def dest!: arg_cong [where f = length])

















lemma distance_matrix_empty: "distance_matrix [] = []"
  by (simp add: distance_matrix_def distance_matrix_by_def zeros_def)

lemma weight_city:
  assumes "length dm = N" "1 \<le> a" "a \<le> int N" "1 \<le> b" "b \<le> int N"
  shows "weight dm a b = dm ! nat (a - 1) ! nat (b - 1)"
  using assms by (simp add: weight_def position_def)

lemma valid_city: "1 \<le> c \<Longrightarrow> c \<le> int N \<Longrightarrow> valid_index N (c - 1)"
  by (simp add: valid_index_def)

lemma route_length_cities:
  assumes ne: "T \<noteq> []" and sq: "square N dm" and ids: "\<forall>c\<in>set T. 1 \<le> c \<and> c \<le> int N"
  shows "route_length T dm =
     Inr ((\<Sum>i<length T - 1. dm ! nat (T ! i - 1) ! nat (T ! (i + 1) - 1))
          + dm ! nat (last T - 1) ! nat (hd T - 1))"
proof -
  have len: "length dm = N" using sq by (simp add: square_def)
  have w: "weight dm a b = dm ! nat (a - 1) ! nat (b - 1)" if "a \<in> set T" "b \<in> set T" for a b
    using that ids by (intro weight_city [OF len]) auto
  have "(\<Sum>i<length T - 1. weight dm (T ! i) (T ! (i + 1)))
      = (\<Sum>i<length T - 1. dm ! nat (T ! i - 1) ! nat (T ! (i + 1) - 1))"
    by (rule sum.cong) (auto intro!: w)
  moreover have "weight dm (last T) (hd T) = dm ! nat (last T - 1) ! nat (hd T - 1)"
    using ne by (intro w) auto
  moreover have "\<forall>c\<in>set T. valid_index N (c - 1)" using ids by (auto intro: valid_city)
  ultimately show ?thesis
    using ne by (simp add: route_length_square [OF sq] tour_cost_def)
qed

lemma route_length_single:
  assumes "square N dm" "1 \<le> c" "c \<le> int N"
  shows "route_length [c] dm = Inr (dm ! nat (c - 1) ! nat (c - 1))"
  using route_length_cities [of "[c]" N dm] assms by simp


section \<open>Route length: claims C3 and C5\<close>





section \<open>The distance table: claim C4\<close>



section \<open>Neighbours: claim C1\<close>

lemma fold_snoc_map: "fold (\<lambda>p acc. acc @ [g p]) ps acc = acc @ map g ps"
  by (induction ps arbitrary: acc) simp_all

lemma get_neighbors_pairs:
  "get_neighbors T = map (\<lambda>(i, j). swap_positions T i j) (upper_pairs (length T))"
proof -
  have "get_neighbors T =
      fold (\<lambda>(i, j) neighbors. neighbors @ [swap_positions T i j]) (upper_pairs (length T)) []"
    by (simp add: get_neighbors_def upper_pairs_def fold_nested_pairs)
  also have "\<dots> = fold (\<lambda>p neighbors. neighbors @ [(\<lambda>(i, j). swap_positions T i j) p])
      (upper_pairs (length T)) []"
    by (simp add: case_prod_unfold)
  finally show ?thesis by (simp add: fold_snoc_map)
qed

lemma get_neighbors_concat:
  "get_neighbors T =
     concat (map (\<lambda>i. map (\<lambda>j. swap_positions T i j) [i + 1..<length T]) [0..<length T])"
  by (simp add: get_neighbors_pairs upper_pairs_def map_concat comp_def)

lemma length_get_neighbors: "length (get_neighbors T) = length T * (length T - 1) div 2"
  by (simp add: get_neighbors_pairs length_upper_pairs)

lemma length_swap_positions: "length (swap_positions xs i j) = length xs"
  by (simp add: swap_positions_def)

lemma nth_swap_positions:
  assumes "i < length xs" "j < length xs" "k < length xs"
  shows "swap_positions xs i j ! k = (if k = j then xs ! i else if k = i then xs ! j else xs ! k)"
  using assms by (simp add: swap_positions_def nth_list_update)

lemma swap_positions_changes:
  assumes "distinct xs" "i < j" "j < length xs"
  shows "{k. k < length xs \<and> swap_positions xs i j ! k \<noteq> xs ! k} = {i, j}"
proof -
  have ne: "xs ! i \<noteq> xs ! j" using assms by (simp add: nth_eq_iff_index_eq)
  show ?thesis
  proof (rule set_eqI)
    fix k
    show "k \<in> {k. k < length xs \<and> swap_positions xs i j ! k \<noteq> xs ! k} \<longleftrightarrow> k \<in> {i, j}"
    proof (cases "k < length xs")
      case True
      with assms ne show ?thesis
        by (cases "k = j"; cases "k = i") (simp_all add: nth_swap_positions)
    next
      case False
      with assms show ?thesis by auto
    qed
  qed
qed

lemma swap_positions_inj:
  assumes d: "distinct xs" and p: "i < j" "j < length xs" and q: "i' < j'" "j' < length xs"
    and e: "swap_positions xs i j = swap_positions xs i' j'"
  shows "i = i' \<and> j = j'"
proof -
  have "{i, j} = {i', j'}"
    using swap_positions_changes [OF d p] swap_positions_changes [OF d q] e by simp
  with p(1) q(1) show ?thesis by (auto simp: doubleton_eq_iff)
qed

lemma swap_positions_neq:
  assumes "distinct xs" "i < j" "j < length xs"
  shows "swap_positions xs i j \<noteq> xs"
proof
  assume "swap_positions xs i j = xs"
  then have "{k. k < length xs \<and> swap_positions xs i j ! k \<noteq> xs ! k} = {}" by simp
  with swap_positions_changes [OF assms] show False by simp
qed

lemma distinct_get_neighbors:
  assumes "distinct T"
  shows "distinct (get_neighbors T)"
proof -
  have "inj_on (\<lambda>(i, j). swap_positions T i j) (set (upper_pairs (length T)))"
  proof (rule inj_onI)
    fix p q
    assume pq: "p \<in> set (upper_pairs (length T))" "q \<in> set (upper_pairs (length T))"
      and e: "(case p of (i, j) \<Rightarrow> swap_positions T i j) = (case q of (i, j) \<Rightarrow> swap_positions T i j)"
    obtain i j i' j' where [simp]: "p = (i, j)" "q = (i', j')" by (cases p, cases q) blast
    from pq have "i < j" "j < length T" "i' < j'" "j' < length T"
      by (simp_all add: set_upper_pairs)
    with e swap_positions_inj [OF assms, of i j i' j'] show "p = q" by simp
  qed
  then show ?thesis
    by (simp add: get_neighbors_pairs distinct_map distinct_upper_pairs)
qed

lemma in_get_neighbors:
  "nb \<in> set (get_neighbors T) \<longleftrightarrow> (\<exists>i j. i < j \<and> j < length T \<and> nb = swap_positions T i j)"
  by (auto simp: get_neighbors_pairs set_upper_pairs)

lemma self_not_neighbor:
  assumes "distinct T"
  shows "T \<notin> set (get_neighbors T)"
  using swap_positions_neq [OF assms] by (metis in_get_neighbors)

lemma mset_swap_positions:
  "i < length xs \<Longrightarrow> j < length xs \<Longrightarrow> mset (swap_positions xs i j) = mset xs"
  by (simp add: swap_positions_def mset_swap)

lemma upt_shift_Cons: "[a..<a + Suc n] = a # [Suc a..<Suc a + n]"
  using upt_conv_Cons [of a "a + Suc n"] by simp

lemma upt_split_add: "[a..<a + (m + k)] = [a..<a + m] @ [a + m..<a + m + k]"
  using upt_add_eq_append [of a "a + m" k] by (simp add: add.assoc)

lemma neighbor_step_eq:
  assumes "r < length h"
  shows "neighbor_step r i j (h, nbs) = (h @ [swap_positions (h ! r) i j], nbs @ [length h])"
  using assms by (simp add: neighbor_step_def copy_object_def swap_in_place_def nth_append)

lemma store_inner:
  assumes "r < length h"
  shows "fold (neighbor_step r i) js (h, nbs)
       = (h @ map (\<lambda>j. swap_positions (h ! r) i j) js,
          nbs @ [length h..<length h + length js])"
  using assms
proof (induction js arbitrary: h nbs)
  case Nil
  then show ?case by simp
next
  case (Cons j js)
  let ?h = "h @ [swap_positions (h ! r) i j]"
  have r': "r < length ?h" using Cons.prems by simp
  have same: "?h ! r = h ! r" using Cons.prems by (simp add: nth_append)
  have upt: "[length h..<length h + length (j # js)] =
      length h # [length ?h..<length ?h + length js]"
    using upt_shift_Cons [of "length h" "length js"] by simp
  have "fold (neighbor_step r i) (j # js) (h, nbs) =
      fold (neighbor_step r i) js (?h, nbs @ [length h])"
    using Cons.prems by (simp add: neighbor_step_eq)
  also have "\<dots> = (?h @ map (\<lambda>j. swap_positions (?h ! r) i j) js,
      (nbs @ [length h]) @ [length ?h..<length ?h + length js])"
    by (rule Cons.IH [OF r'])
  also have "\<dots> = (h @ map (\<lambda>j. swap_positions (h ! r) i j) (j # js),
      nbs @ [length h..<length h + length (j # js)])"
    unfolding same upt by simp
  finally show ?case .
qed

lemma neighbor_row_eq:
  assumes "r < length h"
  shows "neighbor_row r i (h, nbs) =
     (h @ map (\<lambda>j. swap_positions (h ! r) i j) [i + 1..<length (h ! r)],
      nbs @ [length h..<length h + (length (h ! r) - (i + 1))])"
  using store_inner [OF assms, of i "[i + 1..<length (h ! r)]" nbs]
  by (simp add: neighbor_row_def)

lemma store_outer:
  assumes "r < length h"
  shows "fold (neighbor_row r) ks (h, nbs)
       = (h @ concat (map (\<lambda>i. map (\<lambda>j. swap_positions (h ! r) i j) [i + 1..<length (h ! r)]) ks),
          nbs @ [length h..<length h
             + length (concat (map (\<lambda>i. map (\<lambda>j. swap_positions (h ! r) i j) [i + 1..<length (h ! r)]) ks))])"
  using assms
proof (induction ks arbitrary: h nbs)
  case Nil
  then show ?case by simp
next
  case (Cons k ks)
  let ?T = "h ! r"
  let ?row = "map (\<lambda>j. swap_positions ?T k j) [k + 1..<length ?T]"
  let ?rest = "concat (map (\<lambda>i. map (\<lambda>j. swap_positions ?T i j) [i + 1..<length ?T]) ks)"
  let ?h = "h @ ?row"
  have r': "r < length ?h" using Cons.prems by simp
  have same: "?h ! r = ?T" using Cons.prems by (simp add: nth_append)
  have lrow: "length ?row = length ?T - (k + 1)" by simp
  have split: "[length h..<length h + (length ?row + length ?rest)] =
      [length h..<length h + length ?row] @ [length ?h..<length ?h + length ?rest]"
    using upt_split_add [of "length h" "length ?row" "length ?rest"] by simp
  have "fold (neighbor_row r) (k # ks) (h, nbs) =
      fold (neighbor_row r) ks (?h, nbs @ [length h..<length h + length ?row])"
    using neighbor_row_eq [OF Cons.prems, of k nbs] by (simp only: fold_simps lrow)
  also have "\<dots> = (?h @ concat (map (\<lambda>i. map (\<lambda>j. swap_positions (?h ! r) i j) [i + 1..<length (?h ! r)]) ks),
      (nbs @ [length h..<length h + length ?row]) @ [length ?h..<length ?h
         + length (concat (map (\<lambda>i. map (\<lambda>j. swap_positions (?h ! r) i j) [i + 1..<length (?h ! r)]) ks))])"
    by (rule Cons.IH [OF r'])
  also have "\<dots> = (h @ (?row @ ?rest),
      nbs @ [length h..<length h + (length ?row + length ?rest)])"
    unfolding same split by (simp only: append_assoc)
  finally show ?case by (simp only: list.map concat.simps length_append)
qed

lemma get_neighbors_store_eq:
  assumes "r < length h"
  shows "get_neighbors_store h r =
     (h @ get_neighbors (h ! r), [length h..<length h + length (get_neighbors (h ! r))])"
  using store_outer [OF assms, of "[0..<length (h ! r)]" "[]"]
  by (simp add: get_neighbors_store_def get_neighbors_concat)

lemma length_permutation:
  assumes "distinct T" "set T = {1..int N}"
  shows "length T = N"
proof -
  have "length T = card (set T)" using assms(1) by (simp add: distinct_card)
  then show ?thesis using assms(2) by simp
qed

lemma swap_positions_shape:
  assumes "distinct T" "i < j" "j < length T"
  shows "length (swap_positions T i j) = length T
     \<and> swap_positions T i j ! i = T ! j
     \<and> swap_positions T i j ! j = T ! i
     \<and> (\<forall>k<length T. k \<noteq> i \<and> k \<noteq> j \<longrightarrow> swap_positions T i j ! k = T ! k)
     \<and> {k. k < length T \<and> swap_positions T i j ! k \<noteq> T ! k} = {i, j}
     \<and> mset (swap_positions T i j) = mset T"
  using assms swap_positions_changes [OF assms]
  by (simp add: length_swap_positions nth_swap_positions mset_swap_positions)

lemma get_neighbors_store_frame:
  assumes "r < length h"
  shows "case get_neighbors_store h r of (h', nbs) \<Rightarrow>
       take (length h) h' = h \<and> h' ! r = h ! r
       \<and> map (\<lambda>a. h' ! a) nbs = get_neighbors (h ! r)
       \<and> distinct nbs \<and> (\<forall>a\<in>set nbs. length h \<le> a \<and> a < length h')"
proof -
  let ?ns = "get_neighbors (h ! r)"
  have "map ((!) (h @ ?ns)) [length h..<length h + length ?ns] = ?ns"
    by (rule nth_equalityI) simp_all
  then show ?thesis
    using assms by (simp add: get_neighbors_store_eq nth_append)
qed

text \<open>
  Claim C1. For a tour \<open>T\<close> that is a permutation of the ids 1 to \<open>N\<close>, \<open>get_neighbors\<close>
  returns \<open>N * (N - 1) div 2\<close> tours, no two equal: one for each pair of positions
  \<open>i < j\<close>, in the order of the loops, each of them \<open>T\<close> with the elements at \<open>i\<close> and
  \<open>j\<close> exchanged and every other position as in \<open>T\<close>, so that it differs from \<open>T\<close> at
  exactly these two positions. \<open>T\<close> is not among them, and for \<open>N = 1\<close> there are none.
  On the store, the call leaves every object that existed before it as it was, the
  argument's among them, and returns references to new, pairwise different objects.
\<close>

theorem get_neighbors_swaps:
  assumes "distinct T" and "set T = {1..int N}"
  shows "length (get_neighbors T) = N * (N - 1) div 2
     \<and> distinct (get_neighbors T)
     \<and> get_neighbors T = map (\<lambda>(i, j). swap_positions T i j) (upper_pairs N)
     \<and> set (upper_pairs N) = {(i, j). i < j \<and> j < N}
     \<and> distinct (upper_pairs N)
     \<and> (\<forall>i j. i < j \<and> j < N \<longrightarrow>
           length (swap_positions T i j) = N
           \<and> swap_positions T i j ! i = T ! j
           \<and> swap_positions T i j ! j = T ! i
           \<and> (\<forall>k<N. k \<noteq> i \<and> k \<noteq> j \<longrightarrow> swap_positions T i j ! k = T ! k)
           \<and> {k. k < N \<and> swap_positions T i j ! k \<noteq> T ! k} = {i, j}
           \<and> mset (swap_positions T i j) = mset T)
     \<and> T \<notin> set (get_neighbors T)
     \<and> (N = 1 \<longrightarrow> get_neighbors T = [])
     \<and> (\<forall>h r. r < length h \<and> h ! r = T \<longrightarrow>
           (case get_neighbors_store h r of (h', nbs) \<Rightarrow>
              take (length h) h' = h \<and> h' ! r = T
              \<and> map (\<lambda>a. h' ! a) nbs = get_neighbors T
              \<and> distinct nbs \<and> (\<forall>a\<in>set nbs. length h \<le> a \<and> a < length h')))"
proof -
  have len: "length T = N" using assms by (rule length_permutation)
  have 1: "length (get_neighbors T) = N * (N - 1) div 2"
    using length_get_neighbors [of T] by (simp add: len)
  have 2: "distinct (get_neighbors T)" using assms(1) by (rule distinct_get_neighbors)
  have 3: "get_neighbors T = map (\<lambda>(i, j). swap_positions T i j) (upper_pairs N)"
    using get_neighbors_pairs [of T] by (simp add: len)
  have 4: "\<forall>i j. i < j \<and> j < N \<longrightarrow>
           length (swap_positions T i j) = N
           \<and> swap_positions T i j ! i = T ! j
           \<and> swap_positions T i j ! j = T ! i
           \<and> (\<forall>k<N. k \<noteq> i \<and> k \<noteq> j \<longrightarrow> swap_positions T i j ! k = T ! k)
           \<and> {k. k < N \<and> swap_positions T i j ! k \<noteq> T ! k} = {i, j}
           \<and> mset (swap_positions T i j) = mset T"
    using swap_positions_shape [OF assms(1)] unfolding len by blast
  have 5: "T \<notin> set (get_neighbors T)" using assms(1) by (rule self_not_neighbor)
  have 6: "N = 1 \<longrightarrow> get_neighbors T = []" using 1 by auto
  have 7: "\<forall>h r. r < length h \<and> h ! r = T \<longrightarrow>
           (case get_neighbors_store h r of (h', nbs) \<Rightarrow>
              take (length h) h' = h \<and> h' ! r = T
              \<and> map (\<lambda>a. h' ! a) nbs = get_neighbors T
              \<and> distinct nbs \<and> (\<forall>a\<in>set nbs. length h \<le> a \<and> a < length h'))"
  proof (intro allI impI)
    fix h :: store and r
    assume "r < length h \<and> h ! r = T"
    then show "case get_neighbors_store h r of (h', nbs) \<Rightarrow>
              take (length h) h' = h \<and> h' ! r = T
              \<and> map (\<lambda>a. h' ! a) nbs = get_neighbors T
              \<and> distinct nbs \<and> (\<forall>a\<in>set nbs. length h \<le> a \<and> a < length h')"
      using get_neighbors_store_frame [of r h] by simp
  qed
  note 8 = set_upper_pairs [of N] and 9 = distinct_upper_pairs [of N]
  show ?thesis
    by (intro conjI; fact 1 2 3 4 5 6 7 8 9)
qed

theorem get_neighbors_swaps_witness:
  "get_neighbors [2, 3, 1] = [[3, 2, 1], [1, 3, 2], [2, 1, 3]]
   \<and> length (get_neighbors [2, 3, 1]) = 3
   \<and> distinct (get_neighbors [2, 3, 1])
   \<and> [2, 3, 1] \<notin> set (get_neighbors [2, 3, 1])
   \<and> fst (get_neighbors_store [[2, 3, 1]] 0) ! 0 = [2, 3, 1]"
proof -
  have d: "distinct [2, 3, 1 :: int]" by simp
  have s: "set [2, 3, 1] = {1..int 3}" by (auto simp: eval_nat_numeral)
  note t = get_neighbors_swaps [OF d s]
  have u: "upper_pairs 3 = [(0, 1), (0, 2), (1, 2)]"
    by (simp add: upper_pairs_def upt_rec)
  from t have "get_neighbors [2, 3, 1] = map (\<lambda>(i, j). swap_positions [2, 3, 1] i j) (upper_pairs 3)"
    by (elim conjE) assumption
  then have a: "get_neighbors [2, 3, 1] = [[3, 2, 1], [1, 3, 2], [2, 1, 3]]"
    by (simp add: u swap_positions_def)
  from t have b: "distinct (get_neighbors [2, 3, 1])"
    by (elim conjE) assumption
  from t have b': "[2, 3, 1] \<notin> set (get_neighbors [2, 3, 1])"
    by (elim conjE) assumption
  from t have "length (get_neighbors [2, 3, 1]) = 3 * (3 - 1) div 2"
    by (elim conjE) assumption
  then have l: "length (get_neighbors [2, 3, 1]) = 3" by simp
  from t have "\<forall>h r. r < length h \<and> h ! r = [2, 3, 1] \<longrightarrow>
      (case get_neighbors_store h r of (h', nbs) \<Rightarrow>
         take (length h) h' = h \<and> h' ! r = [2, 3, 1]
         \<and> map (\<lambda>a. h' ! a) nbs = get_neighbors [2, 3, 1]
         \<and> distinct nbs \<and> (\<forall>a\<in>set nbs. length h \<le> a \<and> a < length h'))"
    by (elim conjE) assumption
  from this [rule_format, of 0 "[[2, 3, 1]]"]
  have c: "fst (get_neighbors_store [[2, 3, 1]] 0) ! 0 = [2, 3, 1]"
    by (simp add: case_prod_beta)
  from a l b b' c show ?thesis by simp
qed

section \<open>The engines: claim C2\<close>

lemma tour_set: "tour n cs \<Longrightarrow> set cs = {1..int n}"
proof -
  assume "tour n cs"
  then have "set cs = set (map int [1..<n + 1])" unfolding tour_def by (rule mset_eq_setD)
  also have "\<dots> = int ` {1..n}"
    by (simp only: set_map set_upt Suc_eq_plus1 [symmetric] atLeastLessThanSuc_atLeastAtMost)
  also have "\<dots> = {1..int n}"
    using image_int_atLeastAtMost [of 1 n] by simp
  finally show ?thesis .
qed

lemma tour_length: "tour n cs \<Longrightarrow> length cs = n"
  unfolding tour_def by (drule mset_eq_length) simp

lemma tour_distinct: "tour n cs \<Longrightarrow> distinct cs"
proof -
  assume "tour n cs"
  then have "distinct cs = distinct (map int [1..<n + 1])"
    unfolding tour_def by (rule mset_eq_imp_distinct_iff)
  then show ?thesis by (simp add: distinct_map)
qed

lemma tour_valid: "tour n cs \<Longrightarrow> \<forall>c\<in>set cs. valid_index n (c - 1)"
  by (auto simp: tour_set valid_index_def)

lemma tour_nonempty: "tour n cs \<Longrightarrow> 0 < n \<Longrightarrow> cs \<noteq> []"
  using tour_length by fastforce

lemma finite_tours: "finite {cs. tour n cs}"
  unfolding tour_def by (rule mset_eq_finite)

lemma random_solution_tour:
  assumes "shuffles shuffle"
  shows "tour (length nodes_list) (fst (random_solution shuffle g nodes_list))"
  using assms by (simp add: shuffles_def random_solution_def tour_def)

lemma route_length_tour:
  assumes "square n dm" "tour n cs" "0 < n"
  shows "route_length cs dm = Inr (tour_cost dm cs)"
  using tour_valid [OF assms(2)] tour_nonempty [OF assms(2,3)]
  by (simp add: route_length_square [OF assms(1)])

lemma tour_swap_positions:
  assumes "tour n cs" "i < j" "j < n"
  shows "tour n (swap_positions cs i j)"
  using assms tour_length [OF assms(1)] by (simp add: tour_def mset_swap_positions)

lemma tour_neighbors:
  assumes "tour n cs" "nb \<in> set (get_neighbors cs)"
  shows "tour n nb"
  using assms tour_length [OF assms(1)] tour_swap_positions [OF assms(1)]
  by (auto simp: in_get_neighbors)

lemma neighbors_nonempty:
  assumes "tour n cs" "2 \<le> n"
  shows "get_neighbors cs \<noteq> []"
proof -
  have "(0, 1) \<in> set (upper_pairs (length cs))"
    using assms tour_length [OF assms(1)] by (simp add: set_upper_pairs)
  then show ?thesis by (auto simp: get_neighbors_pairs)
qed

lemma best_loop_tours:
  assumes sq: "square n dm" and n: "0 < n"
    and "\<forall>nb\<in>set nbs. tour n nb" "tour n b"
  shows "\<exists>b'. best_loop dm nbs b (tour_cost dm b) = Inr (b', tour_cost dm b')
     \<and> b' \<in> insert b (set nbs)
     \<and> tour_cost dm b' \<le> tour_cost dm b
     \<and> (\<forall>nb\<in>set nbs. tour_cost dm b' \<le> tour_cost dm nb)"
  using assms(3,4)
proof (induction nbs arbitrary: b)
  case Nil
  then show ?case by simp
next
  case (Cons nb nbs)
  have rl: "route_length nb dm = Inr (tour_cost dm nb)"
    using Cons.prems by (intro route_length_tour [OF sq _ n]) simp
  have rest: "\<forall>nb\<in>set nbs. tour n nb" using Cons.prems by simp
  show ?case
  proof (cases "tour_cost dm nb < tour_cost dm b")
    case True
    have "tour n nb" using Cons.prems by simp
    from Cons.IH [OF rest this] obtain b' where
      "best_loop dm nbs nb (tour_cost dm nb) = Inr (b', tour_cost dm b')"
      "b' \<in> insert nb (set nbs)" "tour_cost dm b' \<le> tour_cost dm nb"
      "\<forall>x\<in>set nbs. tour_cost dm b' \<le> tour_cost dm x" by blast
    with True rl show ?thesis by (intro exI [of _ b']) auto
  next
    case False
    from Cons.IH [OF rest Cons.prems(2)] obtain b' where
      "best_loop dm nbs b (tour_cost dm b) = Inr (b', tour_cost dm b')"
      "b' \<in> insert b (set nbs)" "tour_cost dm b' \<le> tour_cost dm b"
      "\<forall>x\<in>set nbs. tour_cost dm b' \<le> tour_cost dm x" by blast
    with False rl show ?thesis by (intro exI [of _ b']) auto
  qed
qed

lemma get_best_neighbor_tours:
  assumes sq: "square n dm" and n: "0 < n"
    and ts: "\<forall>nb\<in>set nbs. tour n nb" and ne: "nbs \<noteq> []"
  shows "\<exists>b. get_best_neighbor nbs dm = Inr (b, tour_cost dm b)
     \<and> b \<in> set nbs \<and> (\<forall>nb\<in>set nbs. tour_cost dm b \<le> tour_cost dm nb)"
proof -
  obtain x xs where nbs: "nbs = x # xs" using ne by (cases nbs) auto
  have x: "tour n x" using ts nbs by simp
  have i: "py_index nbs 0 = Inr x"
    by (simp add: nbs py_index_def valid_index_def position_def)
  have rl: "route_length x dm = Inr (tour_cost dm x)" using sq x n by (rule route_length_tour)
  have g: "get_best_neighbor nbs dm = best_loop dm nbs x (tour_cost dm x)"
    by (simp add: get_best_neighbor_def i rl)
  from best_loop_tours [OF sq n ts x] obtain b' where b':
    "best_loop dm nbs x (tour_cost dm x) = Inr (b', tour_cost dm b')"
    "b' \<in> insert x (set nbs)" "\<forall>nb\<in>set nbs. tour_cost dm b' \<le> tour_cost dm nb"
    by (elim exE conjE)
  have "x \<in> set nbs" by (simp add: nbs)
  with b'(2) have "b' \<in> set nbs" by auto
  with g b'(1,3) show ?thesis by (intro exI [of _ b']) simp
qed

lemma best_neighbor_of_tour:
  assumes "square n dm" "2 \<le> n" "tour n cs"
  shows "\<exists>b. get_best_neighbor (get_neighbors cs) dm = Inr (b, tour_cost dm b)
     \<and> tour n b \<and> b \<in> set (get_neighbors cs)
     \<and> (\<forall>nb\<in>set (get_neighbors cs). tour_cost dm b \<le> tour_cost dm nb)"
proof -
  have n: "0 < n" using assms(2) by simp
  have ts: "\<forall>nb\<in>set (get_neighbors cs). tour n nb"
    using tour_neighbors [OF assms(3)] by blast
  from get_best_neighbor_tours [OF assms(1) n ts neighbors_nonempty [OF assms(3,2)]]
  obtain b where b: "get_best_neighbor (get_neighbors cs) dm = Inr (b, tour_cost dm b)"
    "b \<in> set (get_neighbors cs)"
    "\<forall>nb\<in>set (get_neighbors cs). tour_cost dm b \<le> tour_cost dm nb" by blast
  with ts show ?thesis by blast
qed

lemma trajectory_ok_append:
  assumes "trajectory_ok s" "b \<le> best_route_length s"
    and "best_route_lengths s' = best_route_lengths s @ [b]" "best_route_length s' = b"
  shows "trajectory_ok s'"
proof -
  have "\<forall>x\<in>set (best_route_lengths s). b \<le> x"
    using assms(1,2) by (auto simp: trajectory_ok_def list_all_iff)
  with assms show ?thesis
    by (simp add: trajectory_ok_def sorted_wrt_append list_all_iff)
qed

lemma adopt_or_count_ok:
  assumes "search_ok n dm s" "tour n b"
  shows "search_ok n dm (adopt_or_count b (tour_cost dm b) s)"
  using assms by (simp add: search_ok_def adopt_or_count_def)

lemma adopt_or_count_best:
  "best_route_length (adopt_or_count b l s) = best_route_length s"
  "best_route_lengths (adopt_or_count b l s) = best_route_lengths s"
  by (simp_all add: adopt_or_count_def)

lemma record_best_ok:
  assumes "search_ok n dm s"
  shows "search_ok n dm (record_best s)"
  using assms by (simp add: search_ok_def record_best_def)

lemma record_best_best:
  "best_route_length (record_best s) \<le> best_route_length s"
  "best_route_lengths (record_best s) = best_route_lengths s"
  by (auto simp: record_best_def intro: less_imp_le)

lemma restart_if_stagnant_ok:
  assumes sq: "square (length city_list) dm" and n: "0 < length city_list"
    and sh: "shuffles shuffle" and ok: "search_ok (length city_list) dm s"
  shows "\<exists>s'. restart_if_stagnant shuffle city_list dm restart_threshold s = Inr s'
     \<and> search_ok (length city_list) dm s'
     \<and> best_route_length s' = best_route_length s
     \<and> best_route_lengths s' = best_route_lengths s"
proof (cases "no_improvement_count s \<ge> restart_threshold")
  case True
  obtain cs g where r: "random_solution shuffle (rng s) city_list = (cs, g)"
    by (cases "random_solution shuffle (rng s) city_list")
  have t: "tour (length city_list) cs"
    using random_solution_tour [OF sh, of city_list "rng s"] by (simp add: r)
  have "route_length cs dm = Inr (tour_cost dm cs)" using sq t n by (rule route_length_tour)
  with True t show ?thesis
    by (simp add: restart_if_stagnant_def r search_ok_def)
next
  case False
  with ok show ?thesis by (simp add: restart_if_stagnant_def)
qed

lemma hcs_iteration_ok:
  assumes sq: "square (length city_list) dm" and n: "2 \<le> length city_list"
    and sh: "shuffles shuffle" and ok: "search_ok (length city_list) dm s"
    and tr: "trajectory_ok s"
  shows "\<exists>s'. hcs_iteration shuffle city_list dm restart_threshold s = Inr s'
     \<and> search_ok (length city_list) dm s' \<and> trajectory_ok s'
     \<and> length (best_route_lengths s') = Suc (length (best_route_lengths s))"
proof -
  let ?n = "length city_list"
  have tour: "tour ?n (current_solution s)" using ok by (simp add: search_ok_def)
  from best_neighbor_of_tour [OF sq n tour] obtain b where
    b: "get_best_neighbor (get_neighbors (current_solution s)) dm = Inr (b, tour_cost dm b)"
    and tb: "tour ?n b" by blast
  let ?s1 = "adopt_or_count b (tour_cost dm b) s"
  let ?s2 = "record_best ?s1"
  have ok2: "search_ok ?n dm ?s2"
    by (intro record_best_ok adopt_or_count_ok ok tb)
  have le2: "best_route_length ?s2 \<le> best_route_length s"
    using record_best_best(1) [of ?s1] by (simp add: adopt_or_count_best)
  have tr2: "best_route_lengths ?s2 = best_route_lengths s"
    by (simp add: record_best_best adopt_or_count_best)
  have "0 < ?n" using n by (cases city_list) auto
  from restart_if_stagnant_ok [OF sq this sh ok2, of restart_threshold] obtain s3 where
    s3: "restart_if_stagnant shuffle city_list dm restart_threshold ?s2 = Inr s3"
    "search_ok ?n dm s3" "best_route_length s3 = best_route_length ?s2"
    "best_route_lengths s3 = best_route_lengths ?s2" by blast
  let ?s4 = "s3\<lparr>best_route_lengths := best_route_lengths s3 @ [best_route_length s3]\<rparr>"
  have 1: "hcs_iteration shuffle city_list dm restart_threshold s = Inr ?s4"
    by (simp add: hcs_iteration_def b s3(1))
  have 2: "search_ok ?n dm ?s4" using s3(2) by (simp add: search_ok_def)
  have 3: "trajectory_ok ?s4"
    using tr le2 by (rule trajectory_ok_append) (simp_all add: s3 tr2)
  have 4: "length (best_route_lengths ?s4) = Suc (length (best_route_lengths s))"
    by (simp add: s3 tr2)
  from 1 2 3 4 show ?thesis by blast
qed

lemma hcs_loop_ok:
  assumes sq: "square (length city_list) dm" and n: "2 \<le> length city_list"
    and sh: "shuffles shuffle"
  shows "search_ok (length city_list) dm s \<Longrightarrow> trajectory_ok s \<Longrightarrow>
     \<exists>s'. hcs_loop shuffle city_list dm restart_threshold k s = Inr s'
       \<and> search_ok (length city_list) dm s' \<and> trajectory_ok s'
       \<and> length (best_route_lengths s') = length (best_route_lengths s) + k"
proof (induction k arbitrary: s)
  case 0
  then show ?case by simp
next
  case (Suc k)
  from hcs_iteration_ok [OF sq n sh Suc.prems, of restart_threshold] obtain s1 where
    s1: "hcs_iteration shuffle city_list dm restart_threshold s = Inr s1"
    "search_ok (length city_list) dm s1" "trajectory_ok s1"
    "length (best_route_lengths s1) = Suc (length (best_route_lengths s))" by blast
  from Suc.IH [OF s1(2,3)] obtain s' where
    "hcs_loop shuffle city_list dm restart_threshold k s1 = Inr s'"
    "search_ok (length city_list) dm s'" "trajectory_ok s'"
    "length (best_route_lengths s') = length (best_route_lengths s1) + k" by blast
  with s1 show ?case by simp
qed



lemma hill_climbing_hcs_ok:
  assumes sq: "square (length city_list) dm" and n: "2 \<le> length city_list"
    and sh: "shuffles shuffle"
  shows "\<exists>best len traj g'.
     hill_climbing_hcs shuffle g city_list dm iterations restart_threshold
       = Inr ((best, len, traj), g')
     \<and> length traj = nat iterations
     \<and> sorted_wrt (\<lambda>a b. b \<le> a) traj
     \<and> (traj = [] \<or> last traj = len)"
proof -
  obtain cs g1 where r: "random_solution shuffle g city_list = (cs, g1)"
    by (cases "random_solution shuffle g city_list")
  have t: "tour (length city_list) cs"
    using random_solution_tour [OF sh, of city_list g] by (simp add: r)
  have "0 < length city_list" using n by (cases city_list) auto
  with sq t have rl: "route_length cs dm = Inr (tour_cost dm cs)" by (rule route_length_tour)
  let ?s0 = "\<lparr>best_solution = None, best_route_length = PosInf, best_route_lengths = [],
      no_improvement_count = 0, rng = g1,
      current_solution = cs, current_route_length = tour_cost dm cs\<rparr>"
  have ok0: "search_ok (length city_list) dm ?s0" using t by (simp add: search_ok_def)
  have tr0: "trajectory_ok ?s0" by (simp add: trajectory_ok_def)
  from hcs_loop_ok [OF sq n sh ok0 tr0, of restart_threshold "nat iterations"] obtain s' where
    s': "hcs_loop shuffle city_list dm restart_threshold (nat iterations) ?s0 = Inr s'"
    "trajectory_ok s'" "length (best_route_lengths s') = nat iterations" by auto
  show ?thesis
    using s'(2,3)
    by (intro exI [of _ "best_solution s'"] exI [of _ "best_route_length s'"]
          exI [of _ "best_route_lengths s'"] exI [of _ "rng s'"])
       (simp add: hill_climbing_hcs_def r rl s'(1) trajectory_ok_def)
qed

lemma fewer_better_tours:
  assumes "tour n nb" "tour_cost dm nb < tour_cost dm cur"
  shows "card {p. tour n p \<and> tour_cost dm p < tour_cost dm nb}
       < card {p. tour n p \<and> tour_cost dm p < tour_cost dm cur}"
proof (rule psubset_card_mono)
  show "finite {p. tour n p \<and> tour_cost dm p < tour_cost dm cur}"
    using finite_tours [of n] by simp
  have "nb \<in> {p. tour n p \<and> tour_cost dm p < tour_cost dm cur}" using assms by simp
  moreover have "nb \<notin> {p. tour n p \<and> tour_cost dm p < tour_cost dm nb}" by simp
  moreover have "{p. tour n p \<and> tour_cost dm p < tour_cost dm nb}
      \<subseteq> {p. tour n p \<and> tour_cost dm p < tour_cost dm cur}"
    using assms(2) by auto
  ultimately show "{p. tour n p \<and> tour_cost dm p < tour_cost dm nb}
      \<subset> {p. tour n p \<and> tour_cost dm p < tour_cost dm cur}"
    by blast
qed

lemma climb_terminates:
  assumes sq: "square n dm" and n: "2 \<le> n"
  shows "tour n cur \<Longrightarrow> tour n nb \<Longrightarrow>
     \<exists>cur' c'. climb dm cur (tour_cost dm cur) nb (tour_cost dm nb) c
         = Some (Inr (cur', tour_cost dm cur', c'))
       \<and> tour n cur' \<and> tour_cost dm cur' \<le> tour_cost dm cur"
proof (induction "card {p. tour n p \<and> tour_cost dm p < tour_cost dm cur}"
    arbitrary: cur nb c rule: less_induct)
  case less
  show ?case
  proof (cases "tour_cost dm nb < tour_cost dm cur")
    case False
    then have "climb dm cur (tour_cost dm cur) nb (tour_cost dm nb) c
        = Some (Inr (cur, tour_cost dm cur, c + 1))"
      by (subst climb.simps) simp
    with less.prems(1) show ?thesis by simp
  next
    case True
    from best_neighbor_of_tour [OF sq n less.prems(2)] obtain b where
      b: "get_best_neighbor (get_neighbors nb) dm = Inr (b, tour_cost dm b)" "tour n b"
      by (elim exE conjE)
    from less.hyps [OF fewer_better_tours [OF less.prems(2) True] less.prems(2) b(2), of 0]
    obtain cur' c' where r:
      "climb dm nb (tour_cost dm nb) b (tour_cost dm b) 0 = Some (Inr (cur', tour_cost dm cur', c'))"
      "tour n cur'" "tour_cost dm cur' \<le> tour_cost dm nb"
      by (elim exE conjE)
    have "climb dm cur (tour_cost dm cur) nb (tour_cost dm nb) c
        = Some (Inr (cur', tour_cost dm cur', c'))"
      by (subst climb.simps) (simp add: True b(1) r(1))
    moreover have "tour_cost dm cur' \<le> tour_cost dm cur" using r(3) True by simp
    ultimately show ?thesis using r(2) by simp
  qed
qed

lemma fresh_start_ok:
  assumes sq: "square (length city_list) dm" and n: "0 < length city_list"
    and sh: "shuffles shuffle"
  shows "\<exists>cs s'. fresh_start shuffle city_list dm restart_threshold s
       = Inr (cs, tour_cost dm cs, s')
     \<and> tour (length city_list) cs
     \<and> best_route_length s' = best_route_length s
     \<and> best_route_lengths s' = best_route_lengths s"
proof -
  obtain cs g where r: "random_solution shuffle (rng s) city_list = (cs, g)"
    by (cases "random_solution shuffle (rng s) city_list")
  have t: "tour (length city_list) cs"
    using random_solution_tour [OF sh, of city_list "rng s"] by (simp add: r)
  have rl: "route_length cs dm = Inr (tour_cost dm cs)" using sq t n by (rule route_length_tour)
  show ?thesis
  proof (cases "no_improvement_count s \<ge> restart_threshold")
    case True
    then have "fresh_start shuffle city_list dm restart_threshold s
        = Inr (cs, tour_cost dm cs, s\<lparr>no_improvement_count := 0, rng := g\<rparr>)"
      by (simp add: fresh_start_def r rl)
    with t show ?thesis by simp
  next
    case False
    then have "fresh_start shuffle city_list dm restart_threshold s
        = Inr (cs, tour_cost dm cs, s\<lparr>rng := g\<rparr>)"
      by (simp add: fresh_start_def r rl)
    with t show ?thesis by simp
  qed
qed

lemma keep_best_best:
  "best_route_length (keep_best c l s) \<le> best_route_length s"
  "best_route_lengths (keep_best c l s) = best_route_lengths s @ [best_route_length (keep_best c l s)]"
  by (auto simp: keep_best_def Let_def intro: less_imp_le)

lemma tsp_iteration_ok:
  assumes sq: "square (length city_list) dm" and n: "2 \<le> length city_list"
    and sh: "shuffles shuffle" and tr: "trajectory_ok s"
  shows "\<exists>s'. tsp_iteration shuffle city_list dm restart_threshold s = Some (Inr s')
     \<and> trajectory_ok s'
     \<and> length (best_route_lengths s') = Suc (length (best_route_lengths s))"
proof -
  let ?n = "length city_list"
  have pos: "0 < ?n" using n by (cases city_list) auto
  from fresh_start_ok [OF sq pos sh, of restart_threshold s] obtain cs s1 where
    f: "fresh_start shuffle city_list dm restart_threshold s = Inr (cs, tour_cost dm cs, s1)"
    and t: "tour ?n cs" and b1: "best_route_length s1 = best_route_length s"
    and t1: "best_route_lengths s1 = best_route_lengths s"
    by (elim exE conjE)
  from best_neighbor_of_tour [OF sq n t] obtain b where
    b: "get_best_neighbor (get_neighbors cs) dm = Inr (b, tour_cost dm b)" and tb: "tour ?n b"
    by (elim exE conjE)
  from climb_terminates [OF sq n t tb, of "no_improvement_count s1"] obtain cur c where
    c: "climb dm cs (tour_cost dm cs) b (tour_cost dm b) (no_improvement_count s1)
        = Some (Inr (cur, tour_cost dm cur, c))"
    by (elim exE conjE)
  let ?s2 = "s1\<lparr>no_improvement_count := c\<rparr>"
  let ?s3 = "keep_best cur (tour_cost dm cur) ?s2"
  have 1: "tsp_iteration shuffle city_list dm restart_threshold s = Some (Inr ?s3)"
    by (simp add: tsp_iteration_def f b c)
  have le: "best_route_length ?s3 \<le> best_route_length s"
    using keep_best_best(1) [of cur "tour_cost dm cur" ?s2] by (simp add: b1)
  have ap: "best_route_lengths ?s3 = best_route_lengths s @ [best_route_length ?s3]"
    using keep_best_best(2) [of cur "tour_cost dm cur" ?s2] by (simp add: t1)
  have 2: "trajectory_ok ?s3"
    using tr le ap by (rule trajectory_ok_append) simp
  have 3: "length (best_route_lengths ?s3) = Suc (length (best_route_lengths s))"
    using arg_cong [OF ap, of length] by simp
  show ?thesis
    by (rule exI [of _ ?s3]) (simp only: 1 2 3 simp_thms)
qed

lemma tsp_loop_ok:
  assumes sq: "square (length city_list) dm" and n: "2 \<le> length city_list"
    and sh: "shuffles shuffle"
  shows "trajectory_ok s \<Longrightarrow>
     \<exists>s'. tsp_loop shuffle city_list dm restart_threshold k s = Some (Inr s')
       \<and> trajectory_ok s'
       \<and> length (best_route_lengths s') = length (best_route_lengths s) + k"
proof (induction k arbitrary: s)
  case 0
  then show ?case by simp
next
  case (Suc k)
  from tsp_iteration_ok [OF sq n sh Suc.prems, of restart_threshold] obtain s1 where
    s1: "tsp_iteration shuffle city_list dm restart_threshold s = Some (Inr s1)"
    "trajectory_ok s1"
    "length (best_route_lengths s1) = Suc (length (best_route_lengths s))"
    by (elim exE conjE)
  from Suc.IH [OF s1(2)] obtain s' where s':
    "tsp_loop shuffle city_list dm restart_threshold k s1 = Some (Inr s')"
    "trajectory_ok s'"
    "length (best_route_lengths s') = length (best_route_lengths s1) + k"
    by (elim exE conjE)
  show ?case
    by (rule exI [of _ s']) (simp add: s1 s')
qed

lemma hill_climbing_ok:
  assumes sq: "square (length city_list) dm" and n: "2 \<le> length city_list"
    and sh: "shuffles shuffle"
  shows "\<exists>best len traj g'.
     hill_climbing shuffle g city_list dm iterations restart_threshold
       = Some (Inr ((best, len, traj), g'))
     \<and> length traj = nat iterations
     \<and> sorted_wrt (\<lambda>a b. b \<le> a) traj
     \<and> (traj = [] \<or> last traj = len)"
proof -
  let ?s0 = "\<lparr>best_solution = None, best_route_length = PosInf, best_route_lengths = [],
      no_improvement_count = 0, rng = g\<rparr>"
  have tr0: "trajectory_ok ?s0" by (simp add: trajectory_ok_def)
  from tsp_loop_ok [OF sq n sh tr0, of restart_threshold "nat iterations"] obtain s' where
    s': "tsp_loop shuffle city_list dm restart_threshold (nat iterations) ?s0 = Some (Inr s')"
    "trajectory_ok s'" "length (best_route_lengths s') = 0 + nat iterations"
    by (elim exE conjE) simp
  show ?thesis
    using s'(2,3)
    by (intro exI [of _ "best_solution s'"] exI [of _ "best_route_length s'"]
          exI [of _ "best_route_lengths s'"] exI [of _ "rng s'"])
       (simp add: hill_climbing_def s'(1) trajectory_ok_def)
qed

lemma sorted_wrt_steps:
  assumes "sorted_wrt (\<lambda>a b. b \<le> a) (xs :: pyfloat list)" "Suc i < length xs"
  shows "xs ! Suc i \<le> xs ! i"
  using assms by (simp add: sorted_wrt_iff_nth_less)

lemma randbelow_less: "0 < n \<Longrightarrow> fst (randbelow n g) < n"
  by (cases g) (simp_all add: randbelow_def)

lemma fisher_yates_fold:
  assumes "\<forall>k\<in>set ks. k < length x"
  shows "mset (fst (fold (\<lambda>i (x, g). let (j, g) = randbelow (i + 1) g in (swap_positions x i j, g))
            ks (x, g))) = mset x"
  using assms
proof (induction ks arbitrary: x g)
  case Nil
  then show ?case by simp
next
  case (Cons k ks)
  obtain j g' where r: "randbelow (Suc k) g = (j, g')" by (cases "randbelow (Suc k) g")
  have k: "k < length x" using Cons.prems by simp
  have "j < Suc k" using randbelow_less [of "Suc k" g] unfolding r by simp
  with k have j: "j < length x" by simp
  have m: "mset (swap_positions x k j) = mset x" using k j by (rule mset_swap_positions)
  have "\<forall>i\<in>set ks. i < length (swap_positions x k j)"
    using Cons.prems by (simp add: length_swap_positions)
  from Cons.IH [OF this, of g'] show ?case by (simp add: r m)
qed

lemma shuffles_fisher_yates: "shuffles fisher_yates"
  unfolding shuffles_def fisher_yates_def
  by (intro allI fisher_yates_fold) simp

text \<open>
  Claim C2. For at least two cities, a table with a row and a column for each of them, any
  iteration budget \<open>k\<close> and any restart threshold, with a \<^verbatim>\<open>random.shuffle\<close> that
  permutes its argument: \<open>hill_climbing\<close> returns in both programs (in \<^verbatim>\<open>tsp.py\<close> every
  \<^verbatim>\<open>while\<close> loop ends, and nothing raises), the trajectory it returns has one entry for
  each of the \<open>k\<close> iterations (none for a negative \<open>k\<close>), no entry is above the entry
  before it, and for \<open>k > 0\<close> the last entry is the returned best length.
\<close>

theorem trajectory_non_increasing:
  assumes "2 \<le> length city_list" and "square (length city_list) dm" and "shuffles shuffle"
  shows "(\<exists>best len traj g'.
           hill_climbing shuffle g city_list dm k restart_threshold
             = Some (Inr ((best, len, traj), g'))
           \<and> length traj = nat k
           \<and> (\<forall>i. Suc i < length traj \<longrightarrow> traj ! Suc i \<le> traj ! i)
           \<and> (0 < k \<longrightarrow> last traj = len))
       \<and> (\<exists>best len traj g'.
           hill_climbing_hcs shuffle g city_list dm k restart_threshold
             = Inr ((best, len, traj), g')
           \<and> length traj = nat k
           \<and> (\<forall>i. Suc i < length traj \<longrightarrow> traj ! Suc i \<le> traj ! i)
           \<and> (0 < k \<longrightarrow> last traj = len))"
proof (rule conjI)
  from hill_climbing_ok [OF assms(2,1,3), of g k restart_threshold]
  obtain best len traj g' where h:
    "hill_climbing shuffle g city_list dm k restart_threshold = Some (Inr ((best, len, traj), g'))"
    "length traj = nat k" "sorted_wrt (\<lambda>a b. b \<le> a) traj" "traj = [] \<or> last traj = len"
    by (elim exE conjE)
  have 1: "\<forall>i. Suc i < length traj \<longrightarrow> traj ! Suc i \<le> traj ! i"
    using sorted_wrt_steps [OF h(3)] by simp
  have 2: "0 < k \<longrightarrow> last traj = len" using h(2,4) by auto
  show "\<exists>best len traj g'.
           hill_climbing shuffle g city_list dm k restart_threshold
             = Some (Inr ((best, len, traj), g'))
           \<and> length traj = nat k
           \<and> (\<forall>i. Suc i < length traj \<longrightarrow> traj ! Suc i \<le> traj ! i)
           \<and> (0 < k \<longrightarrow> last traj = len)"
    using h(1,2) 1 2 by (intro exI conjI)
next
  from hill_climbing_hcs_ok [OF assms(2,1,3), of g k restart_threshold]
  obtain best len traj g' where h:
    "hill_climbing_hcs shuffle g city_list dm k restart_threshold = Inr ((best, len, traj), g')"
    "length traj = nat k" "sorted_wrt (\<lambda>a b. b \<le> a) traj" "traj = [] \<or> last traj = len"
    by (elim exE conjE)
  have 1: "\<forall>i. Suc i < length traj \<longrightarrow> traj ! Suc i \<le> traj ! i"
    using sorted_wrt_steps [OF h(3)] by simp
  have 2: "0 < k \<longrightarrow> last traj = len" using h(2,4) by auto
  show "\<exists>best len traj g'.
           hill_climbing_hcs shuffle g city_list dm k restart_threshold
             = Inr ((best, len, traj), g')
           \<and> length traj = nat k
           \<and> (\<forall>i. Suc i < length traj \<longrightarrow> traj ! Suc i \<le> traj ! i)
           \<and> (0 < k \<longrightarrow> last traj = len)"
    using h(1,2) 1 2 by (intro exI conjI)
qed

theorem trajectory_non_increasing_witness:
  "(\<exists>best len traj g'.
       hill_climbing fisher_yates [3, 1, 1] [(1::int, (0::real, 0::real)), (2, (0, 1)), (3, (1, 1)), (4, (1, 0))]
           [[0, 1, 2, 1], [1, 0, 1, 2], [2, 1, 0, 1], [1, 2, 1, 0]] 2 10
         = Some (Inr ((best, len, traj), g'))
       \<and> length traj = 2 \<and> traj ! 1 \<le> traj ! 0 \<and> last traj = len)
   \<and> (\<exists>best len traj g'.
       hill_climbing_hcs fisher_yates [3, 1, 1] [(1::int, (0::real, 0::real)), (2, (0, 1)), (3, (1, 1)), (4, (1, 0))]
           [[0, 1, 2, 1], [1, 0, 1, 2], [2, 1, 0, 1], [1, 2, 1, 0]] 2 10
         = Inr ((best, len, traj), g')
       \<and> length traj = 2 \<and> traj ! 1 \<le> traj ! 0 \<and> last traj = len)
   \<and> hill_climbing fisher_yates [3, 1, 1] [(1::int, (0::real, 0::real)), (2, (0, 1)), (3, (1, 1)), (4, (1, 0))]
           [[0, 1, 2, 1], [1, 0, 1, 2], [2, 1, 0, 1], [1, 2, 1, 0]] 2 10
         = Some (Inr ((Some [4, 3, 2, 1], Finite 4, [Finite 4, Finite 4]), []))
   \<and> hill_climbing_hcs fisher_yates [3, 1, 1] [(1::int, (0::real, 0::real)), (2, (0, 1)), (3, (1, 1)), (4, (1, 0))]
           [[0, 1, 2, 1], [1, 0, 1, 2], [2, 1, 0, 1], [1, 2, 1, 0]] 3 2
         = Inr ((Some [4, 3, 2, 1], Finite 4, [Finite 4, Finite 4, Finite 4]), [])"
proof -
  let ?cl = "[(1::int, (0::real, 0::real)), (2, (0, 1)), (3, (1, 1)), (4, (1, 0))]"
  let ?dm = "[[0, 1, 2, 1], [1, 0, 1, 2], [2, 1, 0, 1], [1, 2, 1, 0]] :: real list list"
  have 1: "2 \<le> length ?cl" by simp
  have 2: "square (length ?cl) ?dm" by (simp add: square_def)
  note t = trajectory_non_increasing [OF 1 2 shuffles_fisher_yates, of "[3, 1, 1]" 2 10]
  from t [THEN conjunct1] obtain best len traj g' where a:
    "hill_climbing fisher_yates [3, 1, 1] ?cl ?dm 2 10 = Some (Inr ((best, len, traj), g'))"
    "length traj = nat 2" "\<forall>i. Suc i < length traj \<longrightarrow> traj ! Suc i \<le> traj ! i"
    "(0::int) < 2 \<longrightarrow> last traj = len"
    by (elim exE conjE)
  from a(2,3) have "traj ! 1 \<le> traj ! 0" by (simp add: eval_nat_numeral)
  with a have A: "\<exists>best len traj g'.
       hill_climbing fisher_yates [3, 1, 1] ?cl ?dm 2 10 = Some (Inr ((best, len, traj), g'))
       \<and> length traj = 2 \<and> traj ! 1 \<le> traj ! 0 \<and> last traj = len"
    by (intro exI [of _ best] exI [of _ len] exI [of _ traj] exI [of _ g']) simp
  from t [THEN conjunct2] obtain best len traj g' where b:
    "hill_climbing_hcs fisher_yates [3, 1, 1] ?cl ?dm 2 10 = Inr ((best, len, traj), g')"
    "length traj = nat 2" "\<forall>i. Suc i < length traj \<longrightarrow> traj ! Suc i \<le> traj ! i"
    "(0::int) < 2 \<longrightarrow> last traj = len"
    by (elim exE conjE)
  from b(2,3) have "traj ! 1 \<le> traj ! 0" by (simp add: eval_nat_numeral)
  with b have B: "\<exists>best len traj g'.
       hill_climbing_hcs fisher_yates [3, 1, 1] ?cl ?dm 2 10 = Inr ((best, len, traj), g')
       \<and> length traj = 2 \<and> traj ! 1 \<le> traj ! 0 \<and> last traj = len"
    by (intro exI [of _ best] exI [of _ len] exI [of _ traj] exI [of _ g']) simp
  have C: "hill_climbing fisher_yates [3, 1, 1] ?cl ?dm 2 10
      = Some (Inr ((Some [4, 3, 2, 1], Finite 4, [Finite 4, Finite 4]), []))"
    by code_simp
  have D: "hill_climbing_hcs fisher_yates [3, 1, 1] ?cl ?dm 3 2
      = Inr ((Some [4, 3, 2, 1], Finite 4, [Finite 4, Finite 4, Finite 4]), [])"
    by code_simp
  from A B C D show ?thesis by (intro conjI)
qed

section \<open>Restarts of the inner-loop engine: claim C6\<close>

lemma adopt_or_count_fields:
  "no_improvement_count (adopt_or_count b l s) =
     (if l < current_route_length s then 0 else no_improvement_count s + 1)"
  "current_solution (adopt_or_count b l s) =
     (if l < current_route_length s then b else current_solution s)"
  "current_route_length (adopt_or_count b l s) =
     (if l < current_route_length s then l else current_route_length s)"
  "rng (adopt_or_count b l s) = rng s"
  by (simp_all add: adopt_or_count_def)

lemma record_best_fields:
  "no_improvement_count (record_best s) = no_improvement_count s"
  "current_solution (record_best s) = current_solution s"
  "current_route_length (record_best s) = current_route_length s"
  "rng (record_best s) = rng s"
  by (simp_all add: record_best_def)

lemma restart_if_stagnant_reached:
  assumes "restart_if_stagnant shuffle city_list dm restart_threshold s = Inr s'"
    and "restart_threshold \<le> no_improvement_count s"
  shows "current_solution s' = fst (random_solution shuffle (rng s) city_list)
     \<and> rng s' = snd (random_solution shuffle (rng s) city_list)
     \<and> route_length (current_solution s') dm = Inr (current_route_length s')
     \<and> no_improvement_count s' = 0"
  using assms
  by (auto simp: restart_if_stagnant_def case_prod_beta split: sum.splits)

lemma restart_if_stagnant_below:
  assumes "no_improvement_count s < restart_threshold"
  shows "restart_if_stagnant shuffle city_list dm restart_threshold s = Inr s"
  using assms by (simp add: restart_if_stagnant_def)

lemma hcs_iteration_split:
  assumes "hcs_iteration shuffle city_list dm restart_threshold s = Inr s'"
    and "get_best_neighbor (get_neighbors (current_solution s)) dm = Inr (b, l)"
  shows "\<exists>s3. restart_if_stagnant shuffle city_list dm restart_threshold
            (record_best (adopt_or_count b l s)) = Inr s3
       \<and> s' = s3\<lparr>best_route_lengths := best_route_lengths s3 @ [best_route_length s3]\<rparr>"
  using assms by (auto simp: hcs_iteration_def split: sum.splits)

lemma best_loop_first:
  assumes "best_loop dm nbs b0 l0 = Inr (b, l)"
  shows "(b = b0 \<and> l = l0 \<and> (\<forall>nb\<in>set nbs. \<exists>x. route_length nb dm = Inr x \<and> l \<le> x))
     \<or> (\<exists>before after. nbs = before @ b # after \<and> route_length b dm = Inr l \<and> l < l0
           \<and> (\<forall>nb\<in>set before. \<exists>x. route_length nb dm = Inr x \<and> l < x)
           \<and> (\<forall>nb\<in>set after. \<exists>x. route_length nb dm = Inr x \<and> l \<le> x))"
  using assms
proof (induction nbs arbitrary: b0 l0)
  case Nil
  then show ?case by simp
next
  case (Cons nb nbs)
  from Cons.prems obtain x where x: "route_length nb dm = Inr x"
    by (auto split: sum.splits)
  show ?case
  proof (cases "x < l0")
    case True
    with Cons.prems x have "best_loop dm nbs nb x = Inr (b, l)" by simp
    from Cons.IH [OF this] show ?thesis
    proof (elim disjE exE conjE)
      assume kept: "b = nb" "l = x"
        "\<forall>nb\<in>set nbs. \<exists>x. route_length nb dm = Inr x \<and> l \<le> x"
      show ?thesis
        apply (rule disjI2)
        apply (rule exI [of _ "[]"])
        apply (rule exI [of _ nbs])
        using kept x True apply simp
        done
    next
      fix before after
      assume later: "nbs = before @ b # after" "route_length b dm = Inr l" "l < x"
          "\<forall>nb\<in>set before. \<exists>x. route_length nb dm = Inr x \<and> l < x"
          "\<forall>nb\<in>set after. \<exists>x. route_length nb dm = Inr x \<and> l \<le> x"
      show ?thesis
        apply (rule disjI2)
        apply (rule exI [of _ "nb # before"])
        apply (rule exI [of _ after])
        using later x True apply simp
        done
    qed
  next
    case False
    with Cons.prems x have "best_loop dm nbs b0 l0 = Inr (b, l)" by simp
    from Cons.IH [OF this] show ?thesis
    proof (elim disjE exE conjE)
      assume kept: "b = b0" "l = l0"
        "\<forall>nb\<in>set nbs. \<exists>x. route_length nb dm = Inr x \<and> l \<le> x"
      show ?thesis
        apply (rule disjI1)
        using kept x False apply simp
        done
    next
      fix before after
      assume later: "nbs = before @ b # after" "route_length b dm = Inr l" "l < l0"
          "\<forall>nb\<in>set before. \<exists>x. route_length nb dm = Inr x \<and> l < x"
          "\<forall>nb\<in>set after. \<exists>x. route_length nb dm = Inr x \<and> l \<le> x"
      show ?thesis
        apply (rule disjI2)
        apply (rule exI [of _ "nb # before"])
        apply (rule exI [of _ after])
        using later x False apply simp
        done
    qed
  qed
qed

lemma get_best_neighbor_first:
  assumes "get_best_neighbor nbs dm = Inr (b, l)"
  shows "route_length b dm = Inr l
     \<and> (\<exists>before after. nbs = before @ b # after
           \<and> (\<forall>nb\<in>set before. \<exists>x. route_length nb dm = Inr x \<and> l < x)
           \<and> (\<forall>nb\<in>set after. \<exists>x. route_length nb dm = Inr x \<and> l \<le> x))"
proof -
  from assms obtain b0 l0 where b0: "py_index nbs 0 = Inr b0"
    and l0: "route_length b0 dm = Inr l0"
    and loop: "best_loop dm nbs b0 l0 = Inr (b, l)"
    by (auto simp: get_best_neighbor_def split: sum.splits)
  from b0 obtain rest where nbs: "nbs = b0 # rest"
    by (cases nbs) (auto simp: py_index_def valid_index_def position_def split: if_splits)
  from best_loop_first [OF loop] consider
    (kept) "b = b0" "l = l0" "\<forall>nb\<in>set nbs. \<exists>x. route_length nb dm = Inr x \<and> l \<le> x"
    | (later) before after where "nbs = before @ b # after" "route_length b dm = Inr l"
        "\<forall>nb\<in>set before. \<exists>x. route_length nb dm = Inr x \<and> l < x"
        "\<forall>nb\<in>set after. \<exists>x. route_length nb dm = Inr x \<and> l \<le> x"
    by blast
  then show ?thesis
  proof cases
    case kept
    have "nbs = [] @ b # rest" using kept nbs by simp
    moreover have "\<forall>nb\<in>set rest. \<exists>x. route_length nb dm = Inr x \<and> l \<le> x"
      using kept(3) nbs by simp
    moreover have "\<forall>nb\<in>set ([] :: int list list). \<exists>x. route_length nb dm = Inr x \<and> l < x" by simp
    ultimately show ?thesis using kept l0 by blast
  next
    case later
    then show ?thesis by blast
  qed
qed

lemma get_best_neighbor_least:
  assumes "get_best_neighbor nbs dm = Inr (b, l)"
  shows "b \<in> set nbs \<and> (\<forall>nb\<in>set nbs. \<exists>x. route_length nb dm = Inr x \<and> l \<le> x)"
proof -
  from get_best_neighbor_first [OF assms] obtain before after where
    l: "route_length b dm = Inr l" and n: "nbs = before @ b # after"
    and 1: "\<forall>nb\<in>set before. \<exists>x. route_length nb dm = Inr x \<and> l < x"
    and 2: "\<forall>nb\<in>set after. \<exists>x. route_length nb dm = Inr x \<and> l \<le> x"
    by blast
  have "\<exists>x. route_length nb dm = Inr x \<and> l \<le> x" if "nb \<in> set nbs" for nb
  proof -
    from that n consider "nb \<in> set before" | "nb = b" | "nb \<in> set after" by auto
    then show ?thesis
    proof cases
      case 1
      with \<open>\<forall>nb\<in>set before. \<exists>x. route_length nb dm = Inr x \<and> l < x\<close>
      obtain x where "route_length nb dm = Inr x" "l < x" by blast
      then show ?thesis by (intro exI [of _ x]) simp
    next
      case 2
      with l show ?thesis by simp
    next
      case 3
      with \<open>\<forall>nb\<in>set after. \<exists>x. route_length nb dm = Inr x \<and> l \<le> x\<close> show ?thesis by blast
    qed
  qed
  with n show ?thesis by simp
qed


text \<open>
  Claim C6. In an iteration of the engine of \<^verbatim>\<open>tsp_hcs.py\<close> that raises nothing, let
  \<open>(b, l)\<close> be what \<open>get_best_neighbor\<close> returns. It is the best neighbour: \<open>b\<close> is one
  of the neighbours of the current tour, \<open>l\<close> is its length, no neighbour is shorter, and
  every neighbour before \<open>b\<close> in the list is strictly longer. The counter first becomes
  \<open>c\<close>: 0 when \<open>l\<close> is strictly below the current length (and \<open>b\<close> is adopted), the
  old counter plus 1 otherwise. If \<open>c\<close> has reached the threshold
  (\<open>restart_threshold \<le> c\<close>), the iteration ends on a tour freshly drawn from the
  generator, with that tour's length and the counter 0. If it has not, nothing is drawn:
  the generator is untouched, the counter stays \<open>c\<close> and the current tour is the adopted
  neighbour or the old tour. A counter that starts an iteration in
  \<open>0 \<le> _ < restart_threshold\<close> reaches the threshold only by being equal to it, and ends
  the iteration in that range again.
\<close>

theorem restart_exactly_at_threshold:
  assumes "hcs_iteration shuffle city_list dm restart_threshold s = Inr s'"
    and "get_best_neighbor (get_neighbors (current_solution s)) dm = Inr (b, l)"
    and "c = (if l < current_route_length s then 0 else no_improvement_count s + 1)"
  shows "(restart_threshold \<le> c \<longrightarrow>
           current_solution s' = fst (random_solution shuffle (rng s) city_list)
           \<and> rng s' = snd (random_solution shuffle (rng s) city_list)
           \<and> route_length (current_solution s') dm = Inr (current_route_length s')
           \<and> no_improvement_count s' = 0)
       \<and> (c < restart_threshold \<longrightarrow>
           rng s' = rng s
           \<and> no_improvement_count s' = c
           \<and> current_solution s' = (if l < current_route_length s then b else current_solution s)
           \<and> current_route_length s'
                = (if l < current_route_length s then l else current_route_length s))
       \<and> (0 \<le> no_improvement_count s \<and> no_improvement_count s < restart_threshold \<longrightarrow>
           (restart_threshold \<le> c \<longleftrightarrow> c = restart_threshold)
           \<and> 0 \<le> no_improvement_count s' \<and> no_improvement_count s' < restart_threshold)
       \<and> b \<in> set (get_neighbors (current_solution s))
       \<and> route_length b dm = Inr l
       \<and> (\<forall>nb\<in>set (get_neighbors (current_solution s)).
             \<exists>x. route_length nb dm = Inr x \<and> l \<le> x)
       \<and> (\<exists>before after. get_neighbors (current_solution s) = before @ b # after
             \<and> (\<forall>nb\<in>set before. \<exists>x. route_length nb dm = Inr x \<and> l < x))"
proof -
  let ?s2 = "record_best (adopt_or_count b l s)"
  from hcs_iteration_split [OF assms(1,2)] obtain s3 where
    r: "restart_if_stagnant shuffle city_list dm restart_threshold ?s2 = Inr s3"
    and s': "s' = s3\<lparr>best_route_lengths := best_route_lengths s3 @ [best_route_length s3]\<rparr>"
    by (elim exE conjE)
  have c2: "no_improvement_count ?s2 = c"
    by (simp add: record_best_fields adopt_or_count_fields assms(3))
  have g2: "rng ?s2 = rng s" by (simp add: record_best_fields adopt_or_count_fields)
  have reached: "current_solution s' = fst (random_solution shuffle (rng s) city_list)
           \<and> rng s' = snd (random_solution shuffle (rng s) city_list)
           \<and> route_length (current_solution s') dm = Inr (current_route_length s')
           \<and> no_improvement_count s' = 0" if "restart_threshold \<le> c"
    using restart_if_stagnant_reached [OF r] that by (auto simp: c2 g2 s')
  have below: "rng s' = rng s
           \<and> no_improvement_count s' = c
           \<and> current_solution s' = (if l < current_route_length s then b else current_solution s)
           \<and> current_route_length s'
                = (if l < current_route_length s then l else current_route_length s)"
    if "c < restart_threshold"
  proof -
    have "s3 = ?s2" using restart_if_stagnant_below [of ?s2 restart_threshold shuffle city_list dm] r that
      by (simp add: c2)
    then show ?thesis
      by (simp add: s' assms(3) record_best_fields adopt_or_count_fields)
  qed
  have inv: "(restart_threshold \<le> c \<longleftrightarrow> c = restart_threshold)
           \<and> 0 \<le> no_improvement_count s' \<and> no_improvement_count s' < restart_threshold"
    if h: "0 \<le> no_improvement_count s \<and> no_improvement_count s < restart_threshold"
  proof (cases "restart_threshold \<le> c")
    case True
    with h have "c = restart_threshold" by (auto simp: assms(3) split: if_splits)
    with reached [OF True] h show ?thesis by simp
  next
    case False
    then have lt: "c < restart_threshold" by simp
    have "0 \<le> c" using h by (simp add: assms(3))
    with below [OF lt] lt show ?thesis by simp
  qed
  have engine: "(restart_threshold \<le> c \<longrightarrow>
           current_solution s' = fst (random_solution shuffle (rng s) city_list)
           \<and> rng s' = snd (random_solution shuffle (rng s) city_list)
           \<and> route_length (current_solution s') dm = Inr (current_route_length s')
           \<and> no_improvement_count s' = 0)
       \<and> (c < restart_threshold \<longrightarrow>
           rng s' = rng s
           \<and> no_improvement_count s' = c
           \<and> current_solution s' = (if l < current_route_length s then b else current_solution s)
           \<and> current_route_length s'
                = (if l < current_route_length s then l else current_route_length s))
       \<and> (0 \<le> no_improvement_count s \<and> no_improvement_count s < restart_threshold \<longrightarrow>
           (restart_threshold \<le> c \<longleftrightarrow> c = restart_threshold)
           \<and> 0 \<le> no_improvement_count s' \<and> no_improvement_count s' < restart_threshold)"
    using reached below inv by blast
  from get_best_neighbor_first [OF assms(2)] obtain before after where
    first: "route_length b dm = Inr l"
      "get_neighbors (current_solution s) = before @ b # after"
      "\<forall>nb\<in>set before. \<exists>x. route_length nb dm = Inr x \<and> l < x"
    by (elim exE conjE)
  from first(2,3) have ex: "\<exists>before after. get_neighbors (current_solution s) = before @ b # after
             \<and> (\<forall>nb\<in>set before. \<exists>x. route_length nb dm = Inr x \<and> l < x)"
    by (intro exI [of _ before] exI [of _ after] conjI)
  note least = conjunct1 [OF get_best_neighbor_least [OF assms(2)]]
    conjunct2 [OF get_best_neighbor_least [OF assms(2)]]
  from engine least(1) first(1) least(2) ex show ?thesis by (intro conjI) (elim conjE, assumption)+
qed


theorem restart_exactly_at_threshold_witness:
  "hcs_iteration fisher_yates [(1::int, (0::real, 0::real)), (2, (0, 1)), (3, (1, 1)), (4, (1, 0))]
       [[0, 1, 2, 1], [1, 0, 1, 2], [2, 1, 0, 1], [1, 2, 1, 0]] 2
       \<lparr>best_solution = Some [4, 3, 2, 1], best_route_length = Finite 4,
        best_route_lengths = [Finite 4], no_improvement_count = 1, rng = [2, 1],
        current_solution = [4, 3, 2, 1], current_route_length = 4\<rparr>
     = Inr \<lparr>best_solution = Some [4, 3, 2, 1], best_route_length = Finite 4,
        best_route_lengths = [Finite 4, Finite 4], no_improvement_count = 0, rng = [],
        current_solution = [4, 1, 2, 3], current_route_length = 4\<rparr>
   \<and> get_best_neighbor (get_neighbors [4, 3, 2, 1])
         [[0, 1, 2, 1], [1, 0, 1, 2], [2, 1, 0, 1], [1, 2, 1, 0]] = Inr ([2, 3, 4, 1], 4)
   \<and> get_neighbors [4, 3, 2, 1] ! 0 = [3, 4, 2, 1]
   \<and> route_length [3, 4, 2, 1] [[0, 1, 2, 1], [1, 0, 1, 2], [2, 1, 0, 1], [1, 2, 1, 0]] = Inr 6
   \<and> [4, 1, 2, 3] = fst (random_solution fisher_yates [2, 1]
         [(1::int, (0::real, 0::real)), (2, (0, 1)), (3, (1, 1)), (4, (1, 0))])
   \<and> route_length [4, 1, 2, 3] [[0, 1, 2, 1], [1, 0, 1, 2], [2, 1, 0, 1], [1, 2, 1, 0]] = Inr 4
   \<and> hcs_iteration fisher_yates [(1::int, (0::real, 0::real)), (2, (0, 1)), (3, (1, 1)), (4, (1, 0))]
       [[0, 1, 2, 1], [1, 0, 1, 2], [2, 1, 0, 1], [1, 2, 1, 0]] 2
       \<lparr>best_solution = Some [1, 3, 2, 4], best_route_length = Finite 6,
        best_route_lengths = [Finite 6], no_improvement_count = 1, rng = [2, 1],
        current_solution = [1, 3, 2, 4], current_route_length = 6\<rparr>
     = Inr \<lparr>best_solution = Some [4, 3, 2, 1], best_route_length = Finite 4,
        best_route_lengths = [Finite 6, Finite 4], no_improvement_count = 0, rng = [2, 1],
        current_solution = [4, 3, 2, 1], current_route_length = 4\<rparr>
   \<and> get_neighbors [1, 3, 2, 4] ! 0 = [3, 1, 2, 4]
   \<and> route_length [3, 1, 2, 4] [[0, 1, 2, 1], [1, 0, 1, 2], [2, 1, 0, 1], [1, 2, 1, 0]] = Inr 6
   \<and> [4, 3, 2, 1] \<in> set (get_neighbors [1, 3, 2, 4])
   \<and> route_length [4, 3, 2, 1] [[0, 1, 2, 1], [1, 0, 1, 2], [2, 1, 0, 1], [1, 2, 1, 0]] = Inr 4"
proof -
  let ?cl = "[(1::int, (0::real, 0::real)), (2, (0, 1)), (3, (1, 1)), (4, (1, 0))]"
  let ?dm = "[[0, 1, 2, 1], [1, 0, 1, 2], [2, 1, 0, 1], [1, 2, 1, 0]] :: real list list"
  let ?sA = "\<lparr>best_solution = Some [4, 3, 2, 1], best_route_length = Finite 4,
        best_route_lengths = [Finite 4], no_improvement_count = 1, rng = [2, 1] :: nat list,
        current_solution = [4, 3, 2, 1], current_route_length = 4\<rparr>"
  let ?sA' = "\<lparr>best_solution = Some [4, 3, 2, 1], best_route_length = Finite 4,
        best_route_lengths = [Finite 4, Finite 4], no_improvement_count = 0, rng = [] :: nat list,
        current_solution = [4, 1, 2, 3], current_route_length = 4\<rparr>"
  let ?sB = "\<lparr>best_solution = Some [1, 3, 2, 4], best_route_length = Finite 6,
        best_route_lengths = [Finite 6], no_improvement_count = 1, rng = [2, 1] :: nat list,
        current_solution = [1, 3, 2, 4], current_route_length = 6\<rparr>"
  let ?sB' = "\<lparr>best_solution = Some [4, 3, 2, 1], best_route_length = Finite 4,
        best_route_lengths = [Finite 6, Finite 4], no_improvement_count = 0, rng = [2, 1] :: nat list,
        current_solution = [4, 3, 2, 1], current_route_length = 4\<rparr>"
  have A1: "hcs_iteration fisher_yates ?cl ?dm 2 ?sA = Inr ?sA'" by code_simp
  have A2: "get_best_neighbor (get_neighbors (current_solution ?sA)) ?dm = Inr ([2, 3, 4, 1], 4)"
    by code_simp
  have A3: "(2::int) = (if (4::real) < current_route_length ?sA then 0 else no_improvement_count ?sA + 1)"
    by simp
  note tA = restart_exactly_at_threshold [OF A1 A2 A3]
  from tA have "(2::int) \<le> 2 \<longrightarrow>
           current_solution ?sA' = fst (random_solution fisher_yates (rng ?sA) ?cl)
           \<and> rng ?sA' = snd (random_solution fisher_yates (rng ?sA) ?cl)
           \<and> route_length (current_solution ?sA') ?dm = Inr (current_route_length ?sA')
           \<and> no_improvement_count ?sA' = 0"
    by (rule conjunct1)
  then have reached: "current_solution ?sA' = fst (random_solution fisher_yates (rng ?sA) ?cl)
           \<and> rng ?sA' = snd (random_solution fisher_yates (rng ?sA) ?cl)
           \<and> route_length (current_solution ?sA') ?dm = Inr (current_route_length ?sA')
           \<and> no_improvement_count ?sA' = 0"
    by (rule mp) (rule order_refl)
  note drawn = reached [THEN conjunct1]
  note measured = reached [THEN conjunct2, THEN conjunct2, THEN conjunct1]
  from drawn have A4: "[4, 1, 2, 3] = fst (random_solution fisher_yates [2, 1] ?cl)" by simp
  from measured have A5: "route_length [4, 1, 2, 3] ?dm = Inr 4" by simp
  have A6: "get_neighbors [4, 3, 2, 1] ! 0 = [3, 4, 2, 1]" by code_simp
  have A7: "route_length [3, 4, 2, 1] ?dm = Inr 6" by code_simp
  have B1: "hcs_iteration fisher_yates ?cl ?dm 2 ?sB = Inr ?sB'" by code_simp
  have B2: "get_best_neighbor (get_neighbors (current_solution ?sB)) ?dm = Inr ([4, 3, 2, 1], 4)"
    by code_simp
  have B3: "(0::int) = (if (4::real) < current_route_length ?sB then 0 else no_improvement_count ?sB + 1)"
    by simp
  note tB = restart_exactly_at_threshold [OF B1 B2 B3]
  from tB have "[4, 3, 2, 1] \<in> set (get_neighbors (current_solution ?sB))
      \<and> route_length [4, 3, 2, 1] ?dm = Inr 4
      \<and> (\<forall>nb\<in>set (get_neighbors (current_solution ?sB)).
             \<exists>x. route_length nb ?dm = Inr x \<and> 4 \<le> x)
      \<and> (\<exists>before after. get_neighbors (current_solution ?sB) = before @ [4, 3, 2, 1] # after
             \<and> (\<forall>nb\<in>set before. \<exists>x. route_length nb ?dm = Inr x \<and> 4 < x))"
    by (elim conjE) (intro conjI, assumption+)
  note member = this [THEN conjunct1]
    and B5 = this [THEN conjunct2, THEN conjunct1]
  from member have B4: "[4, 3, 2, 1] \<in> set (get_neighbors [1, 3, 2, 4])" by simp
  have B6: "get_neighbors [1, 3, 2, 4] ! 0 = [3, 1, 2, 4]" by code_simp
  have B7: "route_length [3, 1, 2, 4] ?dm = Inr 6" by code_simp
  from A2 have A2': "get_best_neighbor (get_neighbors [4, 3, 2, 1]) ?dm = Inr ([2, 3, 4, 1], 4)"
    by simp
  from A1 A2' A6 A7 A4 A5 B1 B6 B7 B4 B5 show ?thesis by (intro conjI)
qed

section \<open>The threshold in the outer-loop engine: claim C10\<close>

lemma forget_count_fields:
  assumes "forget_count s1 = forget_count s2"
  shows "best_solution s1 = best_solution s2" "best_route_length s1 = best_route_length s2"
    "best_route_lengths s1 = best_route_lengths s2" "rng s1 = rng s2"
proof -
  have "best_solution (forget_count s1) = best_solution (forget_count s2)"
    "best_route_length (forget_count s1) = best_route_length (forget_count s2)"
    "best_route_lengths (forget_count s1) = best_route_lengths (forget_count s2)"
    "rng (forget_count s1) = rng (forget_count s2)"
    using assms by simp_all
  then show "best_solution s1 = best_solution s2" "best_route_length s1 = best_route_length s2"
    "best_route_lengths s1 = best_route_lengths s2" "rng s1 = rng s2"
    by (simp_all add: forget_count_def)
qed

lemma forget_count_update [simp]:
  "forget_count (s\<lparr>no_improvement_count := n\<rparr>) = forget_count s"
  by (simp add: forget_count_def)

lemma forget_count_update_rng [simp]:
  "forget_count (s\<lparr>no_improvement_count := n, rng := g\<rparr>) = forget_count (s\<lparr>rng := g\<rparr>)"
  by (simp add: forget_count_def)

lemma forget_count_rng:
  "forget_count s1 = forget_count s2 \<Longrightarrow> forget_count (s1\<lparr>rng := g\<rparr>) = forget_count (s2\<lparr>rng := g\<rparr>)"
  by (cases s1, cases s2) (simp add: forget_count_def)

lemma forget_count_keep_best:
  "forget_count s1 = forget_count s2 \<Longrightarrow>
     forget_count (keep_best c l s1) = forget_count (keep_best c l s2)"
  by (cases s1, cases s2) (simp add: forget_count_def keep_best_def Let_def)

lemma fresh_start_branches:
  "fresh_start shuffle city_list dm restart_threshold s =
     (case route_length (fst (random_solution shuffle (rng s) city_list)) dm of
        Inl e \<Rightarrow> Inl e
      | Inr l \<Rightarrow>
          Inr (fst (random_solution shuffle (rng s) city_list), l,
               s\<lparr>no_improvement_count :=
                    (if no_improvement_count s \<ge> restart_threshold then 0
                     else no_improvement_count s),
                  rng := snd (random_solution shuffle (rng s) city_list)\<rparr>))"
  by (simp add: fresh_start_def case_prod_beta split: sum.splits)

lemma fresh_start_forget:
  assumes "forget_count s1 = forget_count s2"
  shows "map_sum id (\<lambda>(cs, l, s). (cs, l, forget_count s))
           (fresh_start shuffle city_list dm t1 s1)
       = map_sum id (\<lambda>(cs, l, s). (cs, l, forget_count s))
           (fresh_start shuffle city_list dm t2 s2)"
  using forget_count_rng [OF assms]
  by (simp add: fresh_start_branches forget_count_fields(4) [OF assms] split: sum.splits)

lemma climb_forget:
  "map_option (map_sum id (\<lambda>(c, l, n). (c, l))) (climb dm c cl b bl n1)
     = map_option (map_sum id (\<lambda>(c, l, n). (c, l))) (climb dm c cl b bl n2)"
proof -
  note e1 = climb.simps [of dm c cl b bl n1] and e2 = climb.simps [of dm c cl b bl n2]
  show ?thesis by (simp add: e1 e2)
qed

lemma tsp_iteration_forget:
  assumes "forget_count s1 = forget_count s2"
  shows "map_option (map_sum id forget_count) (tsp_iteration shuffle city_list dm t1 s1)
       = map_option (map_sum id forget_count) (tsp_iteration shuffle city_list dm t2 s2)"
proof (cases "fresh_start shuffle city_list dm t1 s1")
  case (Inl e)
  with fresh_start_forget [OF assms, of shuffle city_list dm t1 t2]
  have "fresh_start shuffle city_list dm t2 s2 = Inl e"
    by (cases "fresh_start shuffle city_list dm t2 s2") auto
  with Inl show ?thesis by (simp add: tsp_iteration_def)
next
  case (Inr r)
  obtain cs l s1' where r: "r = (cs, l, s1')" by (cases r)
  with Inr fresh_start_forget [OF assms, of shuffle city_list dm t1 t2]
  obtain s2' where f2: "fresh_start shuffle city_list dm t2 s2 = Inr (cs, l, s2')"
    and eq: "forget_count s1' = forget_count s2'"
    by (cases "fresh_start shuffle city_list dm t2 s2") auto
  have f1: "fresh_start shuffle city_list dm t1 s1 = Inr (cs, l, s1')" using Inr r by simp
  show ?thesis
  proof (cases "get_best_neighbor (get_neighbors cs) dm")
    case (Inl e)
    then show ?thesis by (simp add: tsp_iteration_def f1 f2)
  next
    case (Inr p)
    obtain b bl where p: "p = (b, bl)" by (cases p)
    let ?c1 = "climb dm cs l b bl (no_improvement_count s1')"
    let ?c2 = "climb dm cs l b bl (no_improvement_count s2')"
    have cf: "map_option (map_sum id (\<lambda>(c, l, n). (c, l))) ?c1
        = map_option (map_sum id (\<lambda>(c, l, n). (c, l))) ?c2"
      by (rule climb_forget)
    have i1: "tsp_iteration shuffle city_list dm t1 s1 =
        (case ?c1 of None \<Rightarrow> None | Some (Inl e) \<Rightarrow> Some (Inl e)
         | Some (Inr (cs, l, n)) \<Rightarrow> Some (Inr (keep_best cs l (s1'\<lparr>no_improvement_count := n\<rparr>))))"
      by (simp add: tsp_iteration_def f1 Inr p)
    have i2: "tsp_iteration shuffle city_list dm t2 s2 =
        (case ?c2 of None \<Rightarrow> None | Some (Inl e) \<Rightarrow> Some (Inl e)
         | Some (Inr (cs, l, n)) \<Rightarrow> Some (Inr (keep_best cs l (s2'\<lparr>no_improvement_count := n\<rparr>))))"
      by (simp add: tsp_iteration_def f2 Inr p)
    have k: "forget_count (keep_best c x (s1'\<lparr>no_improvement_count := n\<rparr>))
        = forget_count (keep_best c x (s2'\<lparr>no_improvement_count := m\<rparr>))" for c x n m
      by (rule forget_count_keep_best) (simp add: eq)
    show ?thesis
      unfolding i1 i2 using cf
      by (cases ?c1; cases ?c2) (auto simp: k split: sum.splits)
  qed
qed

lemma tsp_loop_forget:
  "forget_count s1 = forget_count s2 \<Longrightarrow>
     map_option (map_sum id forget_count) (tsp_loop shuffle city_list dm t1 k s1)
       = map_option (map_sum id forget_count) (tsp_loop shuffle city_list dm t2 k s2)"
proof (induction k arbitrary: s1 s2)
  case 0
  then show ?case by simp
next
  case (Suc k)
  note it = tsp_iteration_forget [OF Suc.prems, of shuffle city_list dm t1 t2]
  show ?case
  proof (cases "tsp_iteration shuffle city_list dm t1 s1")
    case None
    with it have "tsp_iteration shuffle city_list dm t2 s2 = None" by simp
    with None show ?thesis by simp
  next
    case (Some r)
    show ?thesis
    proof (cases r)
      case (Inl e)
      with Some it have "tsp_iteration shuffle city_list dm t2 s2 = Some (Inl e)"
        by (cases "tsp_iteration shuffle city_list dm t2 s2") (auto simp: map_sum_def split: sum.splits)
      with Some Inl show ?thesis by simp
    next
      case (Inr s1')
      with Some it obtain s2' where
        i2: "tsp_iteration shuffle city_list dm t2 s2 = Some (Inr s2')"
        and eq: "forget_count s1' = forget_count s2'"
        by (cases "tsp_iteration shuffle city_list dm t2 s2") (auto simp: map_sum_def split: sum.splits)
      from Suc.IH [OF eq] Some Inr i2 show ?thesis by simp
    qed
  qed
qed

text \<open>
  Claim C10. In \<^verbatim>\<open>tsp.py\<close> the result of \<open>hill_climbing\<close> (the best tour, its length, the
  trajectory, and the generator's state; also an exception, or a loop that never ends) is
  the same for any two restart thresholds, whatever the shuffle, the cities, the table and
  the budget are. Both branches of the first \<^verbatim>\<open>if\<close> of the loop draw a tour and
  compute its length; the threshold decides only whether the counter is set to 0.
\<close>

theorem threshold_has_no_effect:
  "hill_climbing shuffle g city_list dm iterations t1
     = hill_climbing shuffle g city_list dm iterations t2
   \<and> fresh_start shuffle city_list dm t1 s =
       (case route_length (fst (random_solution shuffle (rng s) city_list)) dm of
          Inl e \<Rightarrow> Inl e
        | Inr l \<Rightarrow>
            Inr (fst (random_solution shuffle (rng s) city_list), l,
                 s\<lparr>no_improvement_count :=
                      (if no_improvement_count s \<ge> t1 then 0 else no_improvement_count s),
                    rng := snd (random_solution shuffle (rng s) city_list)\<rparr>))"
proof (rule conjI)
  let ?s0 = "\<lparr>best_solution = None, best_route_length = PosInf, best_route_lengths = [],
      no_improvement_count = 0, rng = g\<rparr>"
  let ?r1 = "tsp_loop shuffle city_list dm t1 (nat iterations) ?s0"
  let ?r2 = "tsp_loop shuffle city_list dm t2 (nat iterations) ?s0"
  have e: "map_option (map_sum id forget_count) ?r1 = map_option (map_sum id forget_count) ?r2"
    by (rule tsp_loop_forget) simp
  have out: "(best_solution a, best_route_length a, best_route_lengths a, rng a)
      = (best_solution b, best_route_length b, best_route_lengths b, rng b)"
    if "forget_count a = forget_count b" for a b :: "'a progress"
    using forget_count_fields [OF that] by simp
  show "hill_climbing shuffle g city_list dm iterations t1
     = hill_climbing shuffle g city_list dm iterations t2"
    unfolding hill_climbing_def using e
    by (cases ?r1; cases ?r2) (auto simp: map_sum_def dest: out split: sum.splits)
next
  show "fresh_start shuffle city_list dm t1 s =
       (case route_length (fst (random_solution shuffle (rng s) city_list)) dm of
          Inl e \<Rightarrow> Inl e
        | Inr l \<Rightarrow>
            Inr (fst (random_solution shuffle (rng s) city_list), l,
                 s\<lparr>no_improvement_count :=
                      (if no_improvement_count s \<ge> t1 then 0 else no_improvement_count s),
                    rng := snd (random_solution shuffle (rng s) city_list)\<rparr>))"
    by (rule fresh_start_branches)
qed

section \<open>Reading the instance: claim C7\<close>

lemma read_lines_no_marker:
  assumes "\<forall>l\<in>set lines. \<not> startswith l ''NODE_COORD_SECTION''"
  shows "read_lines py_int py_float lines False city_list = Inr city_list"
  using assms by (induction lines) simp_all

lemma read_lines_header:
  assumes "\<forall>l\<in>set header. \<not> startswith l ''NODE_COORD_SECTION'' \<and> \<not> startswith l ''EOF''"
  shows "read_lines py_int py_float (header @ rest) False city_list
       = read_lines py_int py_float rest False city_list"
  using assms by (induction header) simp_all

lemma read_lines_section:
  assumes "\<forall>l\<in>set good. \<not> startswith l ''NODE_COORD_SECTION'' \<and> \<not> startswith l ''EOF''
             \<and> parse_line py_int py_float l = Inr (entry_of l)"
  shows "read_lines py_int py_float (good @ rest) True city_list
       = read_lines py_int py_float rest True
           (fold (\<lambda>l. AList.update (fst (entry_of l)) (snd (entry_of l))) good city_list)"
  using assms
proof (induction good arbitrary: city_list)
  case Nil
  then show ?case by simp
next
  case (Cons l good)
  then show ?case by (simp add: case_prod_beta)
qed

lemma map_of_fold_update:
  "map_of (fold (\<lambda>l. AList.update (fst (f l)) (snd (f l))) ls al)
     = map_of al ++ map_of (rev (map f ls))"
proof (induction ls arbitrary: al)
  case Nil
  then show ?case by simp
next
  case (Cons l ls)
  let ?k = "fst (f l)" and ?v = "snd (f l)" and ?M = "map_of (rev (map f ls))"
  have "map_of (fold (\<lambda>l. AList.update (fst (f l)) (snd (f l))) (l # ls) al)
      = map_of (AList.update ?k ?v al) ++ ?M"
    by (simp only: fold_simps Cons.IH)
  also have "\<dots> = (map_of al ++ [?k \<mapsto> ?v]) ++ ?M"
    by (simp only: update_conv' map_add_upd map_add_empty)
  also have "\<dots> = map_of al ++ ([?k \<mapsto> ?v] ++ ?M)"
    by (simp only: map_add_assoc)
  also have "[?k \<mapsto> ?v] ++ ?M = map_of (rev (map f (l # ls)))"
  proof -
    have "map_of [f l] = [?k \<mapsto> ?v]" by (cases "f l") simp
    then show ?thesis by simp
  qed
  finally show ?case .
qed

lemma distinct_fold_update:
  "distinct (map fst al) \<Longrightarrow>
     distinct (map fst (fold (\<lambda>l. AList.update (fst (f l)) (snd (f l))) ls al))"
  by (induction ls arbitrary: al) (simp_all add: distinct_update)

lemma parse_line_fields:
  assumes "py_split (py_strip line) = t0 # t1 # t2 # others"
  shows "parse_line py_int py_float line =
     (case py_int t0 of None \<Rightarrow> Inl ValueError
      | Some i \<Rightarrow> (case py_float t1 of None \<Rightarrow> Inl ValueError
         | Some x \<Rightarrow> (case py_float t2 of None \<Rightarrow> Inl ValueError
            | Some y \<Rightarrow> Inr (i, (x, y)))))"
  by (simp add: parse_line_def assms py_index_def valid_index_def position_def
      split: option.splits)

lemma parse_line_non_numeric:
  assumes "py_split (py_strip line) = t0 # t1 # t2 # others"
    and "py_int t0 = None \<or> py_float t1 = None \<or> py_float t2 = None"
  shows "parse_line py_int py_float line = Inl ValueError"
  using assms(2) by (auto simp: parse_line_fields [OF assms(1)] split: option.splits)

lemma read_tsp_bad_line:
  assumes h: "\<forall>l\<in>set header. \<not> startswith l ''NODE_COORD_SECTION'' \<and> \<not> startswith l ''EOF''"
    and m: "startswith marker ''NODE_COORD_SECTION''"
    and g: "\<forall>l\<in>set good. \<not> startswith l ''NODE_COORD_SECTION'' \<and> \<not> startswith l ''EOF''
             \<and> parse_line py_int py_float l = Inr (entry_of l)"
    and b: "\<not> startswith bad ''NODE_COORD_SECTION''" "\<not> startswith bad ''EOF''"
      "parse_line py_int py_float bad = Inl e"
  shows "read_tsp py_int py_float (header @ marker # good @ bad # rest) = Inl e"
proof -
  have "read_tsp py_int py_float (header @ marker # good @ bad # rest)
      = read_lines py_int py_float (marker # good @ bad # rest) False []"
    unfolding read_tsp_def using h by (rule read_lines_header)
  also have "\<dots> = read_lines py_int py_float (good @ bad # rest) True []"
    using m by simp
  also have "\<dots> = read_lines py_int py_float (bad # rest) True
      (fold (\<lambda>l. AList.update (fst (entry_of l)) (snd (entry_of l))) good [])"
    using g by (rule read_lines_section)
  also have "\<dots> = Inl e" using b by simp
  finally show ?thesis .
qed

lemma read_tsp_good_lines:
  assumes h: "\<forall>l\<in>set header. \<not> startswith l ''NODE_COORD_SECTION'' \<and> \<not> startswith l ''EOF''"
    and m: "startswith marker ''NODE_COORD_SECTION''"
    and g: "\<forall>l\<in>set good. \<not> startswith l ''NODE_COORD_SECTION'' \<and> \<not> startswith l ''EOF''
             \<and> parse_line py_int py_float l = Inr (entry_of l)"
    and e: "rest = [] \<or> startswith (hd rest) ''EOF''"
  shows "\<exists>city_list. read_tsp py_int py_float (header @ marker # good @ rest) = Inr city_list
     \<and> map_of city_list = map_of (rev (map entry_of good))
     \<and> distinct (map fst city_list)"
proof -
  let ?cl = "fold (\<lambda>l. AList.update (fst (entry_of l)) (snd (entry_of l))) good []"
  have eof: "\<not> startswith l ''NODE_COORD_SECTION''" if "startswith l ''EOF''" for l
  proof
    assume "startswith l ''NODE_COORD_SECTION''"
    then have "take (length ''NODE_COORD_SECTION'') l = ''NODE_COORD_SECTION''"
      unfolding startswith_def .
    then have "take (length ''EOF'') (take (length ''NODE_COORD_SECTION'') l)
        = take (length ''EOF'') ''NODE_COORD_SECTION''"
      by (rule arg_cong)
    moreover have "take (length ''EOF'') (take (length ''NODE_COORD_SECTION'') l)
        = take (length ''EOF'') l"
      by simp
    moreover have "take (length ''EOF'') l = ''EOF''"
      using that unfolding startswith_def .
    ultimately show False by simp
  qed
  have "read_tsp py_int py_float (header @ marker # good @ rest)
      = read_lines py_int py_float (marker # good @ rest) False []"
    unfolding read_tsp_def using h by (rule read_lines_header)
  also have "\<dots> = read_lines py_int py_float (good @ rest) True []"
    using m by simp
  also have "\<dots> = read_lines py_int py_float rest True ?cl"
    using g by (rule read_lines_section)
  also have "\<dots> = Inr ?cl"
    using e eof by (cases rest) auto
  finally have "read_tsp py_int py_float (header @ marker # good @ rest) = Inr ?cl" .
  moreover have "map_of ?cl = map_of (rev (map entry_of good))"
    by (simp add: map_of_fold_update)
  moreover have "distinct (map fst ?cl)" by (rule distinct_fold_update) simp
  ultimately show ?thesis by (intro exI [of _ ?cl] conjI)
qed

lemma parse_line_short:
  assumes "length (py_split (py_strip line)) < 3"
  shows "parse_line py_int py_float line = Inl IndexError
     \<or> parse_line py_int py_float line = Inl ValueError"
proof -
  consider (0) "py_split (py_strip line) = []"
    | (1) t0 where "py_split (py_strip line) = [t0]"
    | (2) t0 t1 where "py_split (py_strip line) = [t0, t1]"
    using assms
    by (cases "py_split (py_strip line)"; cases "tl (py_split (py_strip line))";
        cases "tl (tl (py_split (py_strip line)))") auto
  then show ?thesis
    by cases
      (simp_all add: parse_line_def Let_def py_index_def valid_index_def position_def
        split: option.splits)
qed

text \<open>
  Claim C7, as the code has it. \<open>read_tsp\<close> validates nothing by itself; what fails is what
  \<^verbatim>\<open>int\<close>, \<^verbatim>\<open>float\<close> and the indexing of the fields raise. For a file of header
  lines, a line starting with \<^verbatim>\<open>NODE_COORD_SECTION\<close>, section lines that parse, and then
  a section line on which \<open>parse_line\<close> raises \<open>e\<close>, \<open>read_tsp\<close> raises \<open>e\<close>, whatever
  follows. A line with three fields or more of which the first is no integer or the second
  or third no float raises \<^verbatim>\<open>ValueError\<close>; a line with fewer than three fields raises
  \<^verbatim>\<open>IndexError\<close> or \<^verbatim>\<open>ValueError\<close>. A file with no line starting with
  \<^verbatim>\<open>NODE_COORD_SECTION\<close> yields the empty dictionary and no exception. When all section
  lines up to \<^verbatim>\<open>EOF\<close> (or the end) parse, the result is a dictionary in which every id
  has the coordinates of the last line that carries it: a repeated id is no error.
\<close>

theorem read_tsp_behaviour:
  assumes "\<forall>l\<in>set header. \<not> startswith l ''NODE_COORD_SECTION'' \<and> \<not> startswith l ''EOF''"
    and "startswith marker ''NODE_COORD_SECTION''"
    and "\<forall>l\<in>set good. \<not> startswith l ''NODE_COORD_SECTION'' \<and> \<not> startswith l ''EOF''
           \<and> parse_line py_int py_float l = Inr (entry_of l)"
    and "\<not> startswith bad ''NODE_COORD_SECTION''" and "\<not> startswith bad ''EOF''"
    and "parse_line py_int py_float bad = Inl e"
    and "rest = [] \<or> startswith (hd rest) ''EOF''"
    and "\<forall>l\<in>set lines. \<not> startswith l ''NODE_COORD_SECTION''"
  shows "read_tsp py_int py_float (header @ marker # good @ bad # after) = Inl e
     \<and> (\<forall>line t0 t1 t2 others.
           py_split (py_strip line) = t0 # t1 # t2 # others
           \<and> (py_int t0 = None \<or> py_float t1 = None \<or> py_float t2 = None)
           \<longrightarrow> parse_line py_int py_float line = Inl ValueError)
     \<and> (\<forall>line. length (py_split (py_strip line)) < 3
           \<longrightarrow> parse_line py_int py_float line = Inl IndexError
               \<or> parse_line py_int py_float line = Inl ValueError)
     \<and> read_tsp py_int py_float lines = Inr []
     \<and> (\<exists>city_list.
           read_tsp py_int py_float (header @ marker # good @ rest) = Inr city_list
           \<and> map_of city_list = map_of (rev (map entry_of good))
           \<and> distinct (map fst city_list))"
proof (intro conjI)
  show "read_tsp py_int py_float (header @ marker # good @ bad # after) = Inl e"
    using assms(1-6) by (rule read_tsp_bad_line)
  show "\<forall>line t0 t1 t2 others.
           py_split (py_strip line) = t0 # t1 # t2 # others
           \<and> (py_int t0 = None \<or> py_float t1 = None \<or> py_float t2 = None)
           \<longrightarrow> parse_line py_int py_float line = Inl ValueError"
    using parse_line_non_numeric by blast
  show "\<forall>line. length (py_split (py_strip line)) < 3
           \<longrightarrow> parse_line py_int py_float line = Inl IndexError
               \<or> parse_line py_int py_float line = Inl ValueError"
    using parse_line_short by blast
  show "read_tsp py_int py_float lines = Inr []"
    unfolding read_tsp_def using assms(8) by (rule read_lines_no_marker)
  show "\<exists>city_list.
           read_tsp py_int py_float (header @ marker # good @ rest) = Inr city_list
           \<and> map_of city_list = map_of (rev (map entry_of good))
           \<and> distinct (map fst city_list)"
    using assms(1-3,7) by (rule read_tsp_good_lines)
qed

theorem read_tsp_counterexample:
  "read_tsp decimal_int decimal_float [''NAME: demo'', ''1 0.0 0.0'', ''2 3.0 0.0'', ''EOF''] = Inr []
   \<and> read_tsp decimal_int decimal_float
        [''NODE_COORD_SECTION'', ''1 0.0 0.0'', ''1 5.0 5.5'', ''EOF''] = Inr [(1, (5, 11 / 2))]"
  by code_simp

theorem read_tsp_behaviour_witness:
  "read_tsp decimal_int decimal_float
      [''NAME: demo'', ''NODE_COORD_SECTION'', ''1 0.0 0.0'', ''2 3.0 0.0'', ''1 5.0 5.5'',
       ''3 abc 1.0'', ''EOF''] = Inl ValueError
   \<and> read_tsp decimal_int decimal_float [''1 0.0 0.0'', ''EOF''] = Inr []
   \<and> (\<exists>city_list.
         read_tsp decimal_int decimal_float
           [''NAME: demo'', ''NODE_COORD_SECTION'', ''1 0.0 0.0'', ''2 3.0 0.0'', ''1 5.0 5.5'',
            ''EOF''] = Inr city_list
         \<and> map_of city_list = map_of [(1, (5, 11 / 2)), (2, (3, 0)), (1, (0, 0))]
         \<and> distinct (map fst city_list))"
proof -
  let ?entry = "\<lambda>l. if l = ''1 0.0 0.0'' then (1::int, (0::real, 0::real))
                   else if l = ''2 3.0 0.0'' then (2, (3, 0)) else (1, (5, 11 / 2))"
  have p1: "parse_line decimal_int decimal_float ''1 0.0 0.0'' = Inr (1, (0, 0))" by code_simp
  have p2: "parse_line decimal_int decimal_float ''2 3.0 0.0'' = Inr (2, (3, 0))" by code_simp
  have p3: "parse_line decimal_int decimal_float ''1 5.0 5.5'' = Inr (1, (5, 11 / 2))" by code_simp
  have 1: "\<forall>l\<in>set [''NAME: demo'']. \<not> startswith l ''NODE_COORD_SECTION'' \<and> \<not> startswith l ''EOF''"
    by (simp add: startswith_def)
  have 2: "startswith ''NODE_COORD_SECTION'' ''NODE_COORD_SECTION''" by (simp add: startswith_def)
  have 3: "\<forall>l\<in>set [''1 0.0 0.0'', ''2 3.0 0.0'', ''1 5.0 5.5''].
      \<not> startswith l ''NODE_COORD_SECTION'' \<and> \<not> startswith l ''EOF''
      \<and> parse_line decimal_int decimal_float l = Inr (?entry l)"
    by (simp add: startswith_def p1 p2 p3)
  have 4: "\<not> startswith ''3 abc 1.0'' ''NODE_COORD_SECTION''" by (simp add: startswith_def)
  have 5: "\<not> startswith ''3 abc 1.0'' ''EOF''" by (simp add: startswith_def)
  have 6: "parse_line decimal_int decimal_float ''3 abc 1.0'' = Inl ValueError" by code_simp
  have 7: "[''EOF''] = [] \<or> startswith (hd [''EOF'']) ''EOF''" by (simp add: startswith_def)
  have 8: "\<forall>l\<in>set [''1 0.0 0.0'', ''EOF'']. \<not> startswith l ''NODE_COORD_SECTION''"
    by (simp add: startswith_def)
  note t = read_tsp_behaviour [OF 1 2 3 4 5 6 7 8, of "[''EOF'']"]
  from t have a: "read_tsp decimal_int decimal_float
      ([''NAME: demo''] @ ''NODE_COORD_SECTION'' # [''1 0.0 0.0'', ''2 3.0 0.0'', ''1 5.0 5.5'']
         @ ''3 abc 1.0'' # [''EOF'']) = Inl ValueError"
    by (elim conjE)
  from t have b: "read_tsp decimal_int decimal_float [''1 0.0 0.0'', ''EOF''] = Inr []"
    by (elim conjE)
  from t have c: "\<exists>city_list.
      read_tsp decimal_int decimal_float
        ([''NAME: demo''] @ ''NODE_COORD_SECTION'' # [''1 0.0 0.0'', ''2 3.0 0.0'', ''1 5.0 5.5'']
           @ [''EOF'']) = Inr city_list
      \<and> map_of city_list = map_of (rev (map ?entry [''1 0.0 0.0'', ''2 3.0 0.0'', ''1 5.0 5.5'']))
      \<and> distinct (map fst city_list)"
    by (elim conjE)
  have r: "rev (map ?entry [''1 0.0 0.0'', ''2 3.0 0.0'', ''1 5.0 5.5''])
      = [(1, (5, 11 / 2)), (2, (3, 0)), (1, (0, 0))]"
    by simp
  from a b c [unfolded r] show ?thesis by simp
qed

section \<open>No cities: claim C8\<close>

lemma entry_empty_table: "entry [] a b = Inl IndexError"
  by (simp add: entry_def py_index_def valid_index_def)

lemma route_length_empty_table: "route_length cs [] = Inl IndexError"
proof (cases cs)
  case Nil
  then show ?thesis by (simp add: route_length_def py_index_def valid_index_def)
next
  case (Cons c cs')
  show ?thesis
  proof (cases cs')
    case Nil
    with Cons show ?thesis
      by (simp add: route_length_def py_index_def valid_index_def position_def entry_empty_table)
  next
    case (Cons d ds)
    with \<open>cs = c # cs'\<close> have "0 < length cs - 1" by simp
    then have "[0..<length cs - 1] = 0 # [Suc 0..<length cs - 1]"
      by (rule upt_conv_Cons)
    then show ?thesis
      by (simp add: route_length_def entry_empty_table)
  qed
qed

lemma tsp_iteration_empty_table:
  "tsp_iteration shuffle city_list [] restart_threshold s = Some (Inl IndexError)"
  by (simp add: tsp_iteration_def fresh_start_def route_length_empty_table case_prod_beta)

lemma hill_climbing_empty_table:
  assumes "0 < iterations"
  shows "hill_climbing shuffle g city_list [] iterations restart_threshold = Some (Inl IndexError)"
proof -
  from assms obtain m where "nat iterations = Suc m" by (cases "nat iterations") auto
  then show ?thesis by (simp add: hill_climbing_def tsp_iteration_empty_table)
qed

lemma main_no_cities:
  assumes "read_tsp py_int py_float lines = Inr []"
  shows "main py_int py_float shuffle g lines = Some (Inl IndexError)"
  using assms by (simp add: main_def distance_matrix_empty hill_climbing_empty_table)

text \<open>
  Claim C8, as the code has it. When \<open>read_tsp\<close> returns the empty dictionary, \<^verbatim>\<open>main\<close>
  of \<^verbatim>\<open>tsp.py\<close> checks nothing: it builds the empty table and calls \<open>hill_climbing\<close>,
  whose first iteration draws a tour and raises \<^verbatim>\<open>IndexError\<close> in \<open>route_length\<close>,
  which finds no entry in the empty table (and no last element in the empty tour). The
  program ends with that exception, whatever the generator is.
\<close>

theorem empty_instance_fails_in_search:
  assumes "read_tsp py_int py_float lines = Inr []"
  shows "main py_int py_float shuffle g lines = Some (Inl IndexError)
     \<and> distance_matrix [] = []
     \<and> route_length (fst (random_solution shuffle g ([] :: cities))) [] = Inl IndexError
     \<and> hill_climbing shuffle g ([] :: cities) [] 1000 10 = Some (Inl IndexError)"
  using main_no_cities [OF assms] distance_matrix_empty
  by (simp add: route_length_empty_table hill_climbing_empty_table)

theorem empty_instance_fails_in_search_witness:
  "read_tsp decimal_int decimal_float [''NAME: none'', ''NODE_COORD_SECTION'', ''EOF''] = Inr []
   \<and> main decimal_int decimal_float fisher_yates [7, 7] [''NAME: none'', ''NODE_COORD_SECTION'', ''EOF'']
       = Some (Inl IndexError)"
proof -
  have 1: "read_tsp decimal_int decimal_float [''NAME: none'', ''NODE_COORD_SECTION'', ''EOF''] = Inr []"
    by code_simp
  from 1 empty_instance_fails_in_search [OF 1, of fisher_yates "[7, 7]"] show ?thesis
    by (intro conjI) (elim conjE, assumption)+
qed

theorem empty_instance_counterexample:
  "read_tsp decimal_int decimal_float [''EOF''] = Inr []
   \<and> main decimal_int decimal_float fisher_yates [] [''EOF''] = Some (Inl IndexError)
   \<and> random_solution fisher_yates [] ([] :: cities) = ([], [])
   \<and> route_length [] (distance_matrix []) = Inl IndexError"
proof -
  have 1: "read_tsp decimal_int decimal_float [''EOF''] = Inr []" by code_simp
  have 2: "random_solution fisher_yates [] ([] :: cities) = ([], [])" by code_simp
  from 1 main_no_cities [OF 1, of fisher_yates "[]"] 2 show ?thesis
    by (simp add: route_length_empty_table distance_matrix_empty)
qed

section \<open>One city: claim C9\<close>

lemma tour_single: "tour 1 cs \<Longrightarrow> cs = [1]"
  by (simp add: tour_def)

lemma get_best_neighbor_none: "get_best_neighbor [] dm = Inl IndexError"
  by (simp add: get_best_neighbor_def py_index_def valid_index_def)

lemma single_city_hcs_iteration:
  assumes "current_solution s = [c]"
  shows "hcs_iteration shuffle city_list dm restart_threshold s = Inl IndexError"
  using assms by (simp add: hcs_iteration_def get_neighbors_def get_best_neighbor_none)

text \<open>
  Claim C9, at its failing inputs. For one city, a 1 by 1 table, a permuting shuffle and a
  positive budget, the tour is \<open>[1]\<close>, its route length is the diagonal entry and it has
  no neighbours; \<open>get_best_neighbor\<close> then reads element 0 of the empty list, and both
  engines end with \<^verbatim>\<open>IndexError\<close> in their first iteration.
\<close>

theorem single_city_raises:
  assumes "length city_list = 1" and "square 1 dm" and "shuffles shuffle" and "0 < iterations"
  shows "get_neighbors (fst (random_solution shuffle g city_list)) = []
     \<and> route_length (fst (random_solution shuffle g city_list)) dm = Inr (dm ! 0 ! 0)
     \<and> get_best_neighbor [] dm = Inl IndexError
     \<and> hill_climbing_hcs shuffle g city_list dm iterations restart_threshold = Inl IndexError
     \<and> hill_climbing shuffle g city_list dm iterations restart_threshold = Some (Inl IndexError)"
proof -
  obtain cs g1 where r: "random_solution shuffle g city_list = (cs, g1)"
    by (cases "random_solution shuffle g city_list")
  have "tour 1 cs" using random_solution_tour [OF assms(3), of city_list g] by (simp add: r assms(1))
  then have cs: "cs = [1]" by (rule tour_single)
  have rl: "route_length [1] dm = Inr (dm ! 0 ! 0)"
    using route_length_single [OF assms(2), of 1] by simp
  from assms(4) obtain m where k: "nat iterations = Suc m" by (cases "nat iterations") auto
  have nb: "get_neighbors [1] = []" by (simp add: get_neighbors_def)
  have 1: "hill_climbing_hcs shuffle g city_list dm iterations restart_threshold = Inl IndexError"
    by (simp add: hill_climbing_hcs_def r cs rl k single_city_hcs_iteration)
  have 2: "hill_climbing shuffle g city_list dm iterations restart_threshold = Some (Inl IndexError)"
    by (simp add: hill_climbing_def k tsp_iteration_def fresh_start_def r cs rl nb
        get_best_neighbor_none)
  from 1 2 nb rl show ?thesis by (simp add: r cs get_best_neighbor_none)
qed

theorem single_city_raises_witness:
  "get_neighbors [1] = []
   \<and> route_length [1] (distance_matrix [(0, 0)]) = Inr 0
   \<and> hill_climbing_hcs fisher_yates [] [(1 :: int, (0 :: real, 0 :: real))] (distance_matrix [(0, 0)]) 100 10
       = Inl IndexError
   \<and> hill_climbing fisher_yates [] [(1 :: int, (0 :: real, 0 :: real))] (distance_matrix [(0, 0)]) 1000 10
       = Some (Inl IndexError)
   \<and> main decimal_int decimal_float fisher_yates [] [''NODE_COORD_SECTION'', ''1 0.0 0.0'', ''EOF'']
       = Some (Inl IndexError)"
proof -
  let ?cl = "[(1 :: int, (0 :: real, 0 :: real))]"
  have dm: "distance_matrix [(0, 0)] = [[0]]"
    by (simp add: distance_matrix_def distance_matrix_by_def zeros_def)
  have 1: "length ?cl = 1" by simp
  have 2: "square 1 [[0]]" by (simp add: square_def)
  have rs: "random_solution fisher_yates [] ?cl = ([1], [])" by code_simp
  note a = single_city_raises [OF 1 2 shuffles_fisher_yates, of 100 "[]" 10, unfolded rs]
  note b = single_city_raises [OF 1 2 shuffles_fisher_yates, of 1000 "[]" 10, unfolded rs]
  have rd: "read_tsp decimal_int decimal_float [''NODE_COORD_SECTION'', ''1 0.0 0.0'', ''EOF'']
      = Inr ?cl" by code_simp
  have m: "main decimal_int decimal_float fisher_yates [] [''NODE_COORD_SECTION'', ''1 0.0 0.0'', ''EOF'']
      = Some (Inl IndexError)"
    using b by (simp add: main_def rd dm)
  from a b m show ?thesis by (simp add: dm)
qed

end
